theory Spec2Isabelle
  imports Complex_Main "HOL-Library.Word" "HOL-Library.AList"
begin

section \<open>Host-language values\<close>

text \<open>
  An \<open>ArrayBuffer\<close> and a \<open>Uint8Array\<close> are lists of bytes.  Every integer the
  program handles is a non-negative whole number below \<open>2 ^ 32\<close> (header fields) or a
  product of two such numbers, which a JavaScript number holds exactly, so they are
  \<open>nat\<close>.  Readings of \<open>Date.now()\<close> and their differences are \<open>int\<close>: the host
  clock may step backwards.  An operation of the host library that throws is a function
  into \<open>js_error + 'a\<close>.
\<close>

type_synonym byte = "8 word"
type_synonym ArrayBuffer = "byte list"
type_synonym Uint8Array = "byte list"

datatype js_error = RangeError

definition bindE :: "js_error + 'a \<Rightarrow> ('a \<Rightarrow> js_error + 'b) \<Rightarrow> js_error + 'b" where
  "bindE m f = (case m of Inl e \<Rightarrow> Inl e | Inr x \<Rightarrow> f x)"

text \<open>\<open>DataView.getUint8/16/32(offset, false)\<close>: big-endian reads, a \<open>RangeError\<close>
  when the read leaves the buffer.\<close>

definition getUint8 :: "ArrayBuffer \<Rightarrow> nat \<Rightarrow> js_error + nat" where
  "getUint8 d off =
     (if off + 1 \<le> length d then Inr (unat (d ! off)) else Inl RangeError)"

definition getUint16 :: "ArrayBuffer \<Rightarrow> nat \<Rightarrow> js_error + nat" where
  "getUint16 d off =
     (if off + 2 \<le> length d
      then Inr (unat (d ! off) * 256 + unat (d ! (off + 1)))
      else Inl RangeError)"

definition getUint32 :: "ArrayBuffer \<Rightarrow> nat \<Rightarrow> js_error + nat" where
  "getUint32 d off =
     (if off + 4 \<le> length d
      then Inr (((unat (d ! off) * 256 + unat (d ! (off + 1))) * 256
                  + unat (d ! (off + 2))) * 256 + unat (d ! (off + 3)))
      else Inl RangeError)"

text \<open>\<open>new Uint8Array(buffer, byteOffset, length)\<close>: a view of \<open>length\<close> bytes from
  \<open>byteOffset\<close>; a \<open>RangeError\<close> when the view does not fit the buffer.\<close>

definition Uint8Array_view :: "ArrayBuffer \<Rightarrow> nat \<Rightarrow> nat \<Rightarrow> js_error + Uint8Array" where
  "Uint8Array_view b byteOffset len =
     (if byteOffset + len \<le> length b then Inr (take len (drop byteOffset b))
      else Inl RangeError)"

text \<open>\<open>new Uint8Array(n)\<close> is \<open>n\<close> zero bytes; \<open>a.subarray(0, n)\<close> and
  \<open>a.slice(0, n)\<close> clamp \<open>n\<close> to the length; \<open>target.set(source, offset)\<close> throws a
  \<open>RangeError\<close> when the source does not fit behind \<open>offset\<close>.\<close>

definition Uint8Array_new :: "nat \<Rightarrow> Uint8Array" where
  "Uint8Array_new n = replicate n 0"

definition subarray0 :: "Uint8Array \<Rightarrow> nat \<Rightarrow> Uint8Array" where
  "subarray0 a n = take n a"

definition slice0 :: "Uint8Array \<Rightarrow> nat \<Rightarrow> Uint8Array" where
  "slice0 a n = take n a"

definition Uint8Array_set :: "Uint8Array \<Rightarrow> Uint8Array \<Rightarrow> nat \<Rightarrow> js_error + Uint8Array" where
  "Uint8Array_set target source offset =
     (if offset + length source \<le> length target
      then Inr (take offset target @ source @ drop (offset + length source) target)
      else Inl RangeError)"

section \<open>Headers\<close>

record LegacyStreamInfo =
  frameId :: nat
  chunkId :: nat
  chunksTotal :: nat
  frameSize :: nat
  width :: nat
  height :: nat

record StreamInfo =
  frameId :: nat
  chunkId :: nat
  chunksTotal :: nat
  frameSize :: nat
  width :: nat
  height :: nat
  payloadLen :: nat

definition MYIR_MAGIC :: nat where
  "MYIR_MAGIC = 0x4d594952"

definition MYIR_VER :: nat where
  "MYIR_VER = 3"

text \<open>The body of the \<open>try\<close> block of \<open>parseMyirHeader\<close> (36-byte header), and the
  function itself, whose \<open>catch\<close> turns any exception into \<open>null\<close>.\<close>

definition parseMyirHeader_try :: "ArrayBuffer \<Rightarrow> js_error + StreamInfo option" where
  "parseMyirHeader_try d =
     (if length d < 36 then Inr None
      else bindE (getUint32 d 0) (\<lambda>magic.
        if magic \<noteq> MYIR_MAGIC then Inr None
        else bindE (getUint8 d 4) (\<lambda>ver.
          if ver \<noteq> MYIR_VER then Inr None
          else bindE (getUint16 d 8) (\<lambda>w.
            bindE (getUint16 d 10) (\<lambda>h.
            bindE (getUint32 d 20) (\<lambda>fid.
            bindE (getUint32 d 24) (\<lambda>fsize.
            bindE (getUint16 d 28) (\<lambda>cid.
            bindE (getUint16 d 30) (\<lambda>ctotal.
            bindE (getUint16 d 32) (\<lambda>plen.
              Inr (Some \<lparr> StreamInfo.frameId = fid, StreamInfo.chunkId = cid,
                          StreamInfo.chunksTotal = ctotal, StreamInfo.frameSize = fsize,
                          StreamInfo.width = w, StreamInfo.height = h,
                          payloadLen = plen \<rparr>)))))))))))"

definition parseMyirHeader :: "ArrayBuffer \<Rightarrow> StreamInfo option" where
  "parseMyirHeader d = (case parseMyirHeader_try d of Inl e \<Rightarrow> None | Inr r \<Rightarrow> r)"

text \<open>The older copy of the parser: a 32-byte header without \<open>payloadLen\<close>.\<close>

definition parseMyirHeader_legacy_try :: "ArrayBuffer \<Rightarrow> js_error + LegacyStreamInfo option" where
  "parseMyirHeader_legacy_try d =
     (if length d < 32 then Inr None
      else bindE (getUint32 d 0) (\<lambda>magic.
        if magic \<noteq> MYIR_MAGIC then Inr None
        else bindE (getUint8 d 4) (\<lambda>ver.
          if ver \<noteq> MYIR_VER then Inr None
          else bindE (getUint16 d 8) (\<lambda>w.
            bindE (getUint16 d 10) (\<lambda>h.
            bindE (getUint32 d 20) (\<lambda>fid.
            bindE (getUint32 d 24) (\<lambda>fsize.
            bindE (getUint16 d 28) (\<lambda>cid.
            bindE (getUint16 d 30) (\<lambda>ctotal.
              Inr (Some \<lparr> LegacyStreamInfo.frameId = fid, LegacyStreamInfo.chunkId = cid,
                          LegacyStreamInfo.chunksTotal = ctotal,
                          LegacyStreamInfo.frameSize = fsize,
                          LegacyStreamInfo.width = w, LegacyStreamInfo.height = h \<rparr>))))))))))"

definition parseMyirHeader_legacy :: "ArrayBuffer \<Rightarrow> LegacyStreamInfo option" where
  "parseMyirHeader_legacy d =
     (case parseMyirHeader_legacy_try d of Inl e \<Rightarrow> None | Inr r \<Rightarrow> r)"

section \<open>FrameAssembler\<close>

record FrameAssembler =
  buffer :: Uint8Array
  receivedChunks :: "nat set"
  totalChunks :: nat
  frameSize :: nat
  frameId :: nat
  width :: nat
  height :: nat
  lastUpdate :: int
  chunkPayloadSize :: nat

text \<open>The constructor; \<open>now\<close> is its reading of the clock.\<close>

definition FrameAssembler_new :: "StreamInfo \<Rightarrow> int \<Rightarrow> FrameAssembler" where
  "FrameAssembler_new header now =
     \<lparr> buffer = Uint8Array_new (StreamInfo.frameSize header),
       receivedChunks = {},
       totalChunks = StreamInfo.chunksTotal header,
       frameSize = StreamInfo.frameSize header,
       frameId = StreamInfo.frameId header,
       width = StreamInfo.width header,
       height = StreamInfo.height header,
       lastUpdate = now,
       chunkPayloadSize = 32768 \<rparr>"

definition isComplete :: "FrameAssembler \<Rightarrow> bool" where
  "isComplete a \<longleftrightarrow> card (receivedChunks a) = totalChunks a"

text \<open>\<open>addChunk\<close> returns its boolean and the assembler as the call leaves it.\<close>

definition addChunk ::
  "FrameAssembler \<Rightarrow> nat \<Rightarrow> Uint8Array \<Rightarrow> int \<Rightarrow> js_error + (bool \<times> FrameAssembler)" where
  "addChunk a cid payload now =
     (if cid \<ge> totalChunks a then Inr (False, a)
      else if cid \<in> receivedChunks a then Inr (False, a)
      else
        let offset = cid * chunkPayloadSize a in
        if offset \<ge> length (buffer a) then Inr (False, a)
        else
          let availableSpace = length (buffer a) - offset;
              bytesToCopy = min (length payload) availableSpace
          in bindE (Uint8Array_set (buffer a) (subarray0 payload bytesToCopy) offset) (\<lambda>b.
               let a' = a \<lparr> buffer := b,
                            receivedChunks := insert cid (receivedChunks a),
                            lastUpdate := now \<rparr>
               in Inr (isComplete a', a')))"

definition getJpegData :: "FrameAssembler \<Rightarrow> Uint8Array" where
  "getJpegData a = slice0 (buffer a) (frameSize a)"

section \<open>Reassembler\<close>

text \<open>
  The \<open>frames\<close> table is a JavaScript \<open>Map\<close>: an association list in insertion order
  with one entry per key.  \<open>Map.set\<close> is \<open>AList.update\<close> (an existing key keeps its
  place, a new one goes to the end), \<open>Map.delete\<close> is \<open>AList.delete\<close>, \<open>Map.get\<close> is
  \<open>map_of\<close>, \<open>Map.size\<close> is the length.  An assembler is an object shared between
  the table and the caller, so what \<open>addChunk\<close> does to it is written back to the table.
\<close>

record Reassembler =
  frames :: "(nat \<times> FrameAssembler) list"
  maxFrames :: nat

definition Reassembler_new :: "nat \<Rightarrow> Reassembler" where
  "Reassembler_new n = \<lparr> frames = [], maxFrames = n \<rparr>"

text \<open>\<open>push\<close>: \<open>t_new\<close> is the clock as the constructor reads it, \<open>t_add\<close> as
  \<open>addChunk\<close> reads it.\<close>

definition push ::
  "Reassembler \<Rightarrow> int \<Rightarrow> int \<Rightarrow> StreamInfo \<Rightarrow> Uint8Array
     \<Rightarrow> js_error + (FrameAssembler option \<times> Reassembler)" where
  "push r t_new t_add header payload =
     (let fid = StreamInfo.frameId header;
          (frame, fs) =
            (case map_of (frames r) fid of
               Some f \<Rightarrow> (f, frames r)
             | None \<Rightarrow>
                 (let f = FrameAssembler_new header t_new
                  in (f, AList.update fid f (frames r))))
      in bindE (addChunk frame (StreamInfo.chunkId header) payload t_add) (\<lambda>(complete, frame').
           let fs' = AList.update fid frame' fs
           in if complete then Inr (Some frame', r \<lparr> frames := AList.delete fid fs' \<rparr>)
              else Inr (None, r \<lparr> frames := fs' \<rparr>)))"

definition gc :: "Reassembler \<Rightarrow> int \<Rightarrow> int \<Rightarrow> Reassembler" where
  "gc r now maxAgeMs =
     (if length (frames r) \<le> maxFrames r then r
      else
        let toDelete =
              foldl (\<lambda>acc (fid, frame).
                       if now - lastUpdate frame > maxAgeMs then acc @ [fid] else acc)
                    [] (frames r)
        in r \<lparr> frames := foldl (\<lambda>fs fid. AList.delete fid fs) (frames r) toDelete \<rparr>)"

section \<open>Frame rate and the receive path\<close>

record fpsCounter =
  count :: nat
  lastTime :: int

text \<open>The frame-rate block of \<open>processBuffer\<close>, run for each completed frame: the
  new counter and the rate, if one is computed.  The rate is the exact quotient; the
  rounding of the host's floating-point division is not modelled.\<close>

definition fpsCounter_record :: "fpsCounter \<Rightarrow> int \<Rightarrow> rat option \<times> fpsCounter" where
  "fpsCounter_record c now =
     (let c1 = (if lastTime c = 0 then c \<lparr> lastTime := now \<rparr> else c);
          c2 = c1 \<lparr> count := count c1 + 1 \<rparr>;
          elapsed = now - lastTime c2
      in if elapsed \<ge> 1000
         then (Some (of_nat (count c2 * 1000) / of_int elapsed),
               c2 \<lparr> count := 0, lastTime := now \<rparr>)
         else (None, c2))"

text \<open>\<open>Math.round(x * 10) / 10\<close>.\<close>

definition round10 :: "rat \<Rightarrow> rat" where
  "round10 x = of_int \<lfloor>x * 10 + 1 / 2\<rfloor> / 10"

record clock =
  t_new :: int
  t_add :: int
  t_fps :: int
  t_gc :: int

record app =
  reassembler :: Reassembler
  fpsCounter :: fpsCounter
  fps :: rat
  currentFrame :: "Uint8Array option"

text \<open>
  \<open>processBuffer\<close> of the streaming client, for one datagram; \<open>ck\<close> holds the four
  readings of the clock the call can make.  The frame shown is kept as the bytes of
  \<open>getJpegData\<close> (the base64 image URI and the status line are display only).
\<close>

definition processBuffer :: "app \<Rightarrow> clock \<Rightarrow> ArrayBuffer \<Rightarrow> js_error + app" where
  "processBuffer s ck buf =
     (case parseMyirHeader buf of
        None \<Rightarrow> Inr s
      | Some header \<Rightarrow>
          bindE (Uint8Array_view buf 36 (payloadLen header)) (\<lambda>payload.
          bindE (push (reassembler s) (t_new ck) (t_add ck) header payload) (\<lambda>(completeFrame, r).
            let s1 = s \<lparr> reassembler := r \<rparr>;
                s2 = (case completeFrame of
                        None \<Rightarrow> s1
                      | Some f \<Rightarrow>
                          (let (rate, c) = fpsCounter_record (fpsCounter s1) (t_fps ck);
                               s' = s1 \<lparr> fpsCounter := c \<rparr>;
                               s'' = (case rate of None \<Rightarrow> s'
                                      | Some x \<Rightarrow> s' \<lparr> fps := round10 x \<rparr>)
                           in s'' \<lparr> currentFrame := Some (getJpegData f) \<rparr>))
            in Inr (s2 \<lparr> reassembler := gc (reassembler s2) (t_gc ck) 1000 \<rparr>))))"

section \<open>Reference notions and sample inputs\<close>

text \<open>Big-endian decoding as the wire format defines it: the unsigned number whose
  base-256 digits are the bytes, most significant first; \<open>field d off n\<close> is the
  \<open>n\<close>-byte field of \<open>d\<close> at offset \<open>off\<close>.\<close>

definition be_decode :: "byte list \<Rightarrow> nat" where
  "be_decode bs = foldl (\<lambda>acc b. acc * 256 + unat b) 0 bs"

definition field :: "ArrayBuffer \<Rightarrow> nat \<Rightarrow> nat \<Rightarrow> nat" where
  "field d off n = be_decode (take n (drop off d))"

text \<open>A 36-byte header: magic \<open>MYIR\<close>, version 3, 640 x 480, frame 7 of 70000 bytes,
  chunk \<open>cid\<close> of 3, declaring \<open>plen\<close> payload bytes (\<open>cid\<close> and \<open>plen\<close> below 256),
  and two bytes of padding.\<close>

definition sample_header :: "byte \<Rightarrow> byte \<Rightarrow> ArrayBuffer" where
  "sample_header cid plen =
     [0x4d, 0x59, 0x49, 0x52, 3, 0, 0, 0, 2, 128, 1, 224,
      0, 0, 0, 0, 0, 0, 0, 0,
      0, 0, 0, 7, 0, 1, 17, 112, 0, cid, 0, 3, 0, plen, 0, 0]"

text \<open>A 36-byte datagram with the right magic and version and every other byte zero.\<close>

definition zero_header :: ArrayBuffer where
  "zero_header = [0x4d, 0x59, 0x49, 0x52, 3] @ replicate 31 0"

definition app_init :: app where
  "app_init = \<lparr> reassembler = Reassembler_new 8,
                fpsCounter = \<lparr> count = 0, lastTime = 0 \<rparr>,
                fps = 0, currentFrame = None \<rparr>"

text \<open>The three guards of \<open>addChunk\<close> all pass (\<open>accepts\<close>), and the buffer after
  its copy (\<open>written\<close>).\<close>

definition accepts :: "FrameAssembler \<Rightarrow> nat \<Rightarrow> bool" where
  "accepts a cid \<longleftrightarrow>
     cid < totalChunks a \<and> cid \<notin> receivedChunks a
     \<and> cid * chunkPayloadSize a < length (buffer a)"

definition written :: "Uint8Array \<Rightarrow> nat \<Rightarrow> Uint8Array \<Rightarrow> Uint8Array" where
  "written buf offset payload =
     (let n = min (length payload) (length buf - offset)
      in take offset buf @ take n payload @ drop (offset + n) buf)"

text \<open>Drivers: a list of \<open>push\<close> calls on a reassembler, each with its clock
  readings, collecting the results; a list of \<open>addChunk\<close> calls on one assembler.\<close>

fun pushes ::
  "Reassembler \<Rightarrow> (int \<times> int \<times> StreamInfo \<times> Uint8Array) list
     \<Rightarrow> js_error + (FrameAssembler option list \<times> Reassembler)" where
  "pushes r [] = Inr ([], r)"
| "pushes r ((t1, t2, header, payload) # es) =
     bindE (push r t1 t2 header payload) (\<lambda>(res, r').
       bindE (pushes r' es) (\<lambda>(ress, r''). Inr (res # ress, r'')))"

fun addChunks :: "FrameAssembler \<Rightarrow> (nat \<times> Uint8Array \<times> int) list \<Rightarrow> js_error + FrameAssembler" where
  "addChunks a [] = Inr a"
| "addChunks a ((cid, payload, now) # cs) =
     bindE (addChunk a cid payload now) (\<lambda>(complete, a'). addChunks a' cs)"

text \<open>The states of a reassembler that the program can produce: a new one, and what
  \<open>push\<close> and \<open>gc\<close> make of one.\<close>

inductive reachable :: "Reassembler \<Rightarrow> bool" where
  reach_new: "reachable (Reassembler_new n)"
| reach_push: "reachable r \<Longrightarrow> push r t1 t2 header payload = Inr (res, r') \<Longrightarrow> reachable r'"
| reach_gc: "reachable r \<Longrightarrow> reachable (gc r now maxAgeMs)"

definition stale :: "int \<Rightarrow> int \<Rightarrow> FrameAssembler \<Rightarrow> bool" where
  "stale now maxAgeMs f \<longleftrightarrow> now - lastUpdate f > maxAgeMs"

text \<open>Sample headers and assemblers: a two-chunk frame of three bytes whose chunk 0
  has arrived with one byte, and a header that declares no chunks.\<close>

definition small_info :: "nat \<Rightarrow> nat \<Rightarrow> StreamInfo" where
  "small_info fid cid =
     \<lparr> StreamInfo.frameId = fid, StreamInfo.chunkId = cid,
       StreamInfo.chunksTotal = 2, StreamInfo.frameSize = 3,
       StreamInfo.width = 4, StreamInfo.height = 4, payloadLen = 1 \<rparr>"

definition small_asm :: "nat \<Rightarrow> byte \<Rightarrow> int \<Rightarrow> FrameAssembler" where
  "small_asm fid b t =
     \<lparr> buffer = [b, 0, 0], receivedChunks = {0}, totalChunks = 2, frameSize = 3,
       frameId = fid, width = 4, height = 4, lastUpdate = t, chunkPayloadSize = 32768 \<rparr>"

definition hdr0 :: StreamInfo where
  "hdr0 = \<lparr> StreamInfo.frameId = 9, StreamInfo.chunkId = 0,
            StreamInfo.chunksTotal = 0, StreamInfo.frameSize = 2,
            StreamInfo.width = 4, StreamInfo.height = 4, payloadLen = 1 \<rparr>"

text \<open>An assembler whose buffer has the length its \<open>frameSize\<close> field says; a
  one-chunk frame of three bytes and the assembler it completes to with a two-byte
  payload.\<close>

definition sized :: "FrameAssembler \<Rightarrow> bool" where
  "sized f \<longleftrightarrow> length (buffer f) = frameSize f"

definition one_info :: StreamInfo where
  "one_info = \<lparr> StreamInfo.frameId = 3, StreamInfo.chunkId = 0,
       StreamInfo.chunksTotal = 1, StreamInfo.frameSize = 3,
       StreamInfo.width = 4, StreamInfo.height = 4, payloadLen = 2 \<rparr>"

definition one_asm :: FrameAssembler where
  "one_asm = \<lparr> buffer = [1, 2, 0], receivedChunks = {0}, totalChunks = 1, frameSize = 3,
       frameId = 3, width = 4, height = 4, lastUpdate = 101, chunkPayloadSize = 32768 \<rparr>"

text \<open>
  The frame a set \<open>R\<close> of chunks describes, for payloads \<open>pl\<close>: byte \<open>i\<close> of the
  \<open>S\<close> bytes is byte \<open>i mod 32768\<close> of the payload of chunk \<open>i div 32768\<close> when that
  chunk is in \<open>R\<close> and its payload is that long, and zero otherwise.
\<close>

definition assembled :: "nat \<Rightarrow> (nat \<Rightarrow> Uint8Array) \<Rightarrow> nat set \<Rightarrow> Uint8Array" where
  "assembled S pl R =
     map (\<lambda>i. if i div 32768 \<in> R \<and> i mod 32768 < length (pl (i div 32768))
              then pl (i div 32768) ! (i mod 32768) else 0) [0..<S]"

text \<open>
  A stream of chunks of one frame: each arrival is the two clock readings of its
  \<open>push\<close>, a chunk id and a payload; \<open>arrivals h\<close> gives each the header \<open>h\<close> with
  that chunk id and payload length.  \<open>valid_ids N\<close> are the chunk ids below \<open>N\<close>, in
  arrival order.  \<open>with_frame r fid a\<close> is \<open>r\<close> with assembler \<open>a\<close> entered last under
  \<open>fid\<close>.  \<open>holds h pl R a\<close>: assembler \<open>a\<close> belongs to header \<open>h\<close>, has received
  exactly the chunks \<open>R\<close>, and (when no payload of the frame exceeds 32768 bytes) its
  buffer is the frame \<open>R\<close> describes.
\<close>

definition arrivals ::
  "StreamInfo \<Rightarrow> (int \<times> int \<times> nat \<times> Uint8Array) list
     \<Rightarrow> (int \<times> int \<times> StreamInfo \<times> Uint8Array) list" where
  "arrivals h evs =
     map (\<lambda>(t1, t2, cid, p).
            (t1, t2, h \<lparr> StreamInfo.chunkId := cid, payloadLen := length p \<rparr>, p)) evs"

definition chunk_ids :: "(int \<times> int \<times> nat \<times> Uint8Array) list \<Rightarrow> nat list" where
  "chunk_ids evs = map (\<lambda>(t1, t2, cid, p). cid) evs"

definition holds :: "StreamInfo \<Rightarrow> (nat \<Rightarrow> Uint8Array) \<Rightarrow> nat set \<Rightarrow> FrameAssembler \<Rightarrow> bool" where
  "holds h pl R a \<longleftrightarrow>
     receivedChunks a = R \<and> totalChunks a = StreamInfo.chunksTotal h
     \<and> frameSize a = StreamInfo.frameSize h \<and> length (buffer a) = StreamInfo.frameSize h
     \<and> chunkPayloadSize a = 32768 \<and> frameId a = StreamInfo.frameId h
     \<and> width a = StreamInfo.width h \<and> height a = StreamInfo.height h
     \<and> ((\<forall>c<StreamInfo.chunksTotal h. length (pl c) \<le> 32768)
          \<longrightarrow> buffer a = assembled (StreamInfo.frameSize h) pl R)"

definition with_frame :: "Reassembler \<Rightarrow> nat \<Rightarrow> FrameAssembler \<Rightarrow> Reassembler" where
  "with_frame r fid a = r \<lparr> frames := frames r @ [(fid, a)] \<rparr>"

definition valid_ids :: "nat \<Rightarrow> (int \<times> int \<times> nat \<times> Uint8Array) list \<Rightarrow> nat list" where
  "valid_ids N evs = filter (\<lambda>c. c < N) (chunk_ids evs)"

text \<open>Samples: the frame of 70000 bytes in three chunks of 32768, 32768 and 4464
  bytes; a frame of 32770 bytes in two chunks, for payloads that overlap.\<close>

definition scenario_info :: StreamInfo where
  "scenario_info = \<lparr> StreamInfo.frameId = 7, StreamInfo.chunkId = 0,
       StreamInfo.chunksTotal = 3, StreamInfo.frameSize = 70000,
       StreamInfo.width = 640, StreamInfo.height = 480, payloadLen = 0 \<rparr>"

definition scenario_payload :: "nat \<Rightarrow> Uint8Array" where
  "scenario_payload c = replicate (if c < 2 then 32768 else 4464) (of_nat (c + 1))"

definition over_info :: StreamInfo where
  "over_info = \<lparr> StreamInfo.frameId = 2, StreamInfo.chunkId = 0,
       StreamInfo.chunksTotal = 2, StreamInfo.frameSize = 32770,
       StreamInfo.width = 4, StreamInfo.height = 4, payloadLen = 0 \<rparr>"

definition over_asm :: "Uint8Array \<Rightarrow> FrameAssembler" where
  "over_asm buf =
     \<lparr> buffer = buf, receivedChunks = {0, 1}, totalChunks = 2, frameSize = 32770,
       frameId = 2, width = 4, height = 4, lastUpdate = 2, chunkPayloadSize = 32768 \<rparr>"

section \<open>The header parser\<close>

lemma bindE_Inr [simp]: "bindE (Inr x) f = f x"
  by (simp add: bindE_def)

lemma bindE_Inl [simp]: "bindE (Inl e) f = Inl e"
  by (simp add: bindE_def)

lemma take1_drop: "off < length d \<Longrightarrow> take (Suc 0) (drop off d) = [d ! off]"
  by (simp add: take_Suc_conv_app_nth)

lemma take2_drop: "off + 2 \<le> length d \<Longrightarrow> take 2 (drop off d) = [d ! off, d ! (off + 1)]"
  by (simp add: numeral_2_eq_2 take_Suc_conv_app_nth add.commute)

lemma take4_drop:
  "off + 4 \<le> length d \<Longrightarrow>
   take 4 (drop off d) = [d ! off, d ! (off + 1), d ! (off + 2), d ! (off + 3)]"
  by (simp add: numeral_eq_Suc take_Suc_conv_app_nth add.commute)

lemma getUint8_field: "off + 1 \<le> length d \<Longrightarrow> getUint8 d off = Inr (field d off 1)"
  by (simp add: getUint8_def field_def be_decode_def take1_drop)

lemma getUint16_field: "off + 2 \<le> length d \<Longrightarrow> getUint16 d off = Inr (field d off 2)"
  by (simp add: getUint16_def field_def be_decode_def take2_drop)

lemma getUint32_field: "off + 4 \<le> length d \<Longrightarrow> getUint32 d off = Inr (field d off 4)"
  by (simp add: getUint32_def field_def be_decode_def take4_drop)

lemma parseMyirHeader_try_eq:
  "parseMyirHeader_try d =
     Inr (if length d < 36 \<or> field d 0 4 \<noteq> MYIR_MAGIC \<or> field d 4 1 \<noteq> MYIR_VER then None
          else Some \<lparr> StreamInfo.frameId = field d 20 4, StreamInfo.chunkId = field d 28 2,
                      StreamInfo.chunksTotal = field d 30 2,
                      StreamInfo.frameSize = field d 24 4,
                      StreamInfo.width = field d 8 2, StreamInfo.height = field d 10 2,
                      payloadLen = field d 32 2 \<rparr>)"
  by (simp add: parseMyirHeader_try_def getUint8_field getUint16_field getUint32_field)

lemma parseMyirHeader_legacy_try_eq:
  "parseMyirHeader_legacy_try d =
     Inr (if length d < 32 \<or> field d 0 4 \<noteq> MYIR_MAGIC \<or> field d 4 1 \<noteq> MYIR_VER then None
          else Some \<lparr> LegacyStreamInfo.frameId = field d 20 4,
                      LegacyStreamInfo.chunkId = field d 28 2,
                      LegacyStreamInfo.chunksTotal = field d 30 2,
                      LegacyStreamInfo.frameSize = field d 24 4,
                      LegacyStreamInfo.width = field d 8 2,
                      LegacyStreamInfo.height = field d 10 2 \<rparr>)"
  by (simp add: parseMyirHeader_legacy_try_def getUint8_field getUint16_field getUint32_field)

lemma parseMyirHeader_eq:
  "parseMyirHeader d =
     (if length d < 36 \<or> field d 0 4 \<noteq> MYIR_MAGIC \<or> field d 4 1 \<noteq> MYIR_VER then None
      else Some \<lparr> StreamInfo.frameId = field d 20 4, StreamInfo.chunkId = field d 28 2,
                  StreamInfo.chunksTotal = field d 30 2,
                  StreamInfo.frameSize = field d 24 4,
                  StreamInfo.width = field d 8 2, StreamInfo.height = field d 10 2,
                  payloadLen = field d 32 2 \<rparr>)"
  unfolding parseMyirHeader_def parseMyirHeader_try_eq by simp

lemma parseMyirHeader_legacy_eq:
  "parseMyirHeader_legacy d =
     (if length d < 32 \<or> field d 0 4 \<noteq> MYIR_MAGIC \<or> field d 4 1 \<noteq> MYIR_VER then None
      else Some \<lparr> LegacyStreamInfo.frameId = field d 20 4,
                  LegacyStreamInfo.chunkId = field d 28 2,
                  LegacyStreamInfo.chunksTotal = field d 30 2,
                  LegacyStreamInfo.frameSize = field d 24 4,
                  LegacyStreamInfo.width = field d 8 2,
                  LegacyStreamInfo.height = field d 10 2 \<rparr>)"
  unfolding parseMyirHeader_legacy_def parseMyirHeader_legacy_try_eq by simp

lemma be_decode_snoc: "be_decode (bs @ [b]) = be_decode bs * 256 + unat b"
  by (simp add: be_decode_def)

lemma be_decode_less: "be_decode bs < 256 ^ length bs"
proof (induction bs rule: rev_induct)
  case Nil
  then show ?case by (simp add: be_decode_def)
next
  case (snoc b bs)
  have "unat b < 256" using unsigned_less [of b, where ?'a = nat] by simp
  with snoc show ?case by (simp add: be_decode_snoc)
qed

lemma field_less: "field d off n < 256 ^ n"
proof -
  have "field d off n < 256 ^ length (take n (drop off d))"
    unfolding field_def by (rule be_decode_less)
  also have "\<dots> \<le> (256::nat) ^ n"
    by (rule power_increasing) simp_all
  finally show ?thesis .
qed

lemma sample_header_parse:
  "parseMyirHeader (sample_header cid plen @ p) =
     Some \<lparr> StreamInfo.frameId = 7, StreamInfo.chunkId = unat cid,
            StreamInfo.chunksTotal = 3, StreamInfo.frameSize = 70000,
            StreamInfo.width = 640, StreamInfo.height = 480,
            payloadLen = unat plen \<rparr>"
  by (simp add: parseMyirHeader_def parseMyirHeader_try_def sample_header_def
      getUint8_def getUint16_def getUint32_def MYIR_MAGIC_def MYIR_VER_def)

text \<open>
  C4.  Neither copy of the parser raises: the body of its \<open>try\<close> always returns
  normally.  The 36-byte parser returns \<open>null\<close> exactly when the input has fewer than
  36 bytes, or its first four bytes are not the magic, or its fifth byte is not the
  version; the legacy parser likewise with 32 bytes.  On success every field is the
  big-endian number at its fixed offset.  The parser is a function of its input.
\<close>

theorem parse_invalid_iff_big_endian:
  "(\<exists>r. parseMyirHeader_try d = Inr r) \<and> (\<exists>r. parseMyirHeader_legacy_try d = Inr r)
   \<and> (parseMyirHeader d = None \<longleftrightarrow>
        length d < 36 \<or> field d 0 4 \<noteq> MYIR_MAGIC \<or> field d 4 1 \<noteq> MYIR_VER)
   \<and> (parseMyirHeader_legacy d = None \<longleftrightarrow>
        length d < 32 \<or> field d 0 4 \<noteq> MYIR_MAGIC \<or> field d 4 1 \<noteq> MYIR_VER)
   \<and> (\<forall>h. parseMyirHeader d = Some h \<longrightarrow>
          StreamInfo.width h = field d 8 2 \<and> StreamInfo.height h = field d 10 2
        \<and> StreamInfo.frameId h = field d 20 4 \<and> StreamInfo.frameSize h = field d 24 4
        \<and> StreamInfo.chunkId h = field d 28 2 \<and> StreamInfo.chunksTotal h = field d 30 2
        \<and> payloadLen h = field d 32 2)
   \<and> (\<forall>h. parseMyirHeader_legacy d = Some h \<longrightarrow>
          LegacyStreamInfo.width h = field d 8 2 \<and> LegacyStreamInfo.height h = field d 10 2
        \<and> LegacyStreamInfo.frameId h = field d 20 4
        \<and> LegacyStreamInfo.frameSize h = field d 24 4
        \<and> LegacyStreamInfo.chunkId h = field d 28 2
        \<and> LegacyStreamInfo.chunksTotal h = field d 30 2)"
proof (intro conjI allI impI)
  show "\<exists>r. parseMyirHeader_try d = Inr r"
    by (simp add: parseMyirHeader_try_eq)
  show "\<exists>r. parseMyirHeader_legacy_try d = Inr r"
    by (simp add: parseMyirHeader_legacy_try_eq)
  show "parseMyirHeader d = None \<longleftrightarrow>
        length d < 36 \<or> field d 0 4 \<noteq> MYIR_MAGIC \<or> field d 4 1 \<noteq> MYIR_VER"
    by (simp add: parseMyirHeader_eq)
  show "parseMyirHeader_legacy d = None \<longleftrightarrow>
        length d < 32 \<or> field d 0 4 \<noteq> MYIR_MAGIC \<or> field d 4 1 \<noteq> MYIR_VER"
    by (simp add: parseMyirHeader_legacy_eq)
next
  fix h assume "parseMyirHeader d = Some h"
  then have h: "h = \<lparr> StreamInfo.frameId = field d 20 4, StreamInfo.chunkId = field d 28 2,
                  StreamInfo.chunksTotal = field d 30 2,
                  StreamInfo.frameSize = field d 24 4,
                  StreamInfo.width = field d 8 2, StreamInfo.height = field d 10 2,
                  payloadLen = field d 32 2 \<rparr>"
    by (simp add: parseMyirHeader_eq split: if_splits)
  show "StreamInfo.width h = field d 8 2" "StreamInfo.height h = field d 10 2"
    "StreamInfo.frameId h = field d 20 4" "StreamInfo.frameSize h = field d 24 4"
    "StreamInfo.chunkId h = field d 28 2" "StreamInfo.chunksTotal h = field d 30 2"
    "payloadLen h = field d 32 2"
    by (simp_all add: h)
next
  fix h assume "parseMyirHeader_legacy d = Some h"
  then have h: "h = \<lparr> LegacyStreamInfo.frameId = field d 20 4,
                  LegacyStreamInfo.chunkId = field d 28 2,
                  LegacyStreamInfo.chunksTotal = field d 30 2,
                  LegacyStreamInfo.frameSize = field d 24 4,
                  LegacyStreamInfo.width = field d 8 2,
                  LegacyStreamInfo.height = field d 10 2 \<rparr>"
    by (simp add: parseMyirHeader_legacy_eq split: if_splits)
  show "LegacyStreamInfo.width h = field d 8 2" "LegacyStreamInfo.height h = field d 10 2"
    "LegacyStreamInfo.frameId h = field d 20 4" "LegacyStreamInfo.frameSize h = field d 24 4"
    "LegacyStreamInfo.chunkId h = field d 28 2" "LegacyStreamInfo.chunksTotal h = field d 30 2"
    by (simp_all add: h)
qed

lemma sample_fields:
  "field (sample_header 1 4 @ p) 8 2 = 640"
  "field (sample_header 1 4 @ p) 28 2 = 1"
  "field (sample_header 1 4 @ p) 24 4 = 70000"
  by (simp_all add: field_def be_decode_def sample_header_def)

text \<open>C4 at a 40-byte datagram (valid for both parsers) and at two truncated ones.\<close>

theorem parse_invalid_iff_big_endian_witness:
  "parseMyirHeader (sample_header 1 4 @ [1, 2, 3, 4]) \<noteq> None
   \<and> StreamInfo.width (the (parseMyirHeader (sample_header 1 4 @ [1, 2, 3, 4]))) = 640
   \<and> StreamInfo.frameSize (the (parseMyirHeader (sample_header 1 4 @ [1, 2, 3, 4]))) = 70000
   \<and> parseMyirHeader_legacy (sample_header 1 4 @ [1, 2, 3, 4]) \<noteq> None
   \<and> LegacyStreamInfo.chunkId (the (parseMyirHeader_legacy (sample_header 1 4 @ [1, 2, 3, 4]))) = 1
   \<and> parseMyirHeader (take 35 (sample_header 1 4)) = None
   \<and> parseMyirHeader_legacy (take 31 (sample_header 1 4)) = None"
proof -
  let ?d = "sample_header 1 4 @ [1, 2, 3, 4]"
  have len: "length ?d = 40" by (simp add: sample_header_def)
  have mg: "field ?d 0 4 = MYIR_MAGIC" "field ?d 4 1 = MYIR_VER"
    by (simp_all add: field_def be_decode_def sample_header_def MYIR_MAGIC_def MYIR_VER_def)
  note t = parse_invalid_iff_big_endian [of ?d]
  from t len mg have a: "parseMyirHeader ?d \<noteq> None" by simp
  from t len mg have b: "parseMyirHeader_legacy ?d \<noteq> None" by simp
  from a obtain h where h: "parseMyirHeader ?d = Some h" by blast
  from b obtain g where g: "parseMyirHeader_legacy ?d = Some g" by blast
  from t h have "StreamInfo.width h = field ?d 8 2" "StreamInfo.frameSize h = field ?d 24 4"
    by simp_all
  then have c: "StreamInfo.width h = 640" "StreamInfo.frameSize h = 70000"
    by (simp_all add: sample_fields)
  from t g have "LegacyStreamInfo.chunkId g = field ?d 28 2" by simp
  then have e: "LegacyStreamInfo.chunkId g = 1" by (simp add: sample_fields)
  have s: "length (take 35 (sample_header 1 4)) < 36" "length (take 31 (sample_header 1 4)) < 32"
    by simp_all
  have f: "parseMyirHeader (take 35 (sample_header 1 4)) = None"
    using parse_invalid_iff_big_endian [of "take 35 (sample_header 1 4)"] s(1) by blast
  have f': "parseMyirHeader_legacy (take 31 (sample_header 1 4)) = None"
    using parse_invalid_iff_big_endian [of "take 31 (sample_header 1 4)"] s(2) by blast
  show ?thesis using a b c e f f' h g by simp
qed

lemma zero_header_parse:
  "parseMyirHeader zero_header =
     Some \<lparr> StreamInfo.frameId = 0, StreamInfo.chunkId = 0,
            StreamInfo.chunksTotal = 0, StreamInfo.frameSize = 0,
            StreamInfo.width = 0, StreamInfo.height = 0, payloadLen = 0 \<rparr>"
  by (simp add: parseMyirHeader_def parseMyirHeader_try_def zero_header_def
      getUint8_def getUint16_def getUint32_def MYIR_MAGIC_def MYIR_VER_def nth_append)

text \<open>
  C3 as stated fails: the 36-byte datagram \<open>zero_header\<close> is returned as a valid header
  although its \<open>chunkId\<close> is not below its \<open>chunksTotal\<close> and its \<open>frameSize\<close> and
  \<open>chunksTotal\<close> are zero.
\<close>

theorem parse_accepts_invariant_violation:
  "parseMyirHeader zero_header \<noteq> None
   \<and> \<not> StreamInfo.chunkId (the (parseMyirHeader zero_header))
        < StreamInfo.chunksTotal (the (parseMyirHeader zero_header))
   \<and> \<not> StreamInfo.frameSize (the (parseMyirHeader zero_header)) > 0
   \<and> \<not> StreamInfo.chunksTotal (the (parseMyirHeader zero_header)) > 0"
  by (simp add: zero_header_parse)

text \<open>
  C3, amended.  The parser returns a header as valid exactly when the datagram has at
  least 36 bytes and its magic and version match, whatever the other fields hold; a
  valid header's \<open>chunkId\<close> and \<open>chunksTotal\<close> are below \<open>2 ^ 16\<close> and its
  \<open>frameSize\<close> below \<open>2 ^ 32\<close>, and nothing more is checked by the parser.
\<close>

theorem parse_valid_iff_wire_ranges:
  "(parseMyirHeader d \<noteq> None \<longleftrightarrow>
      36 \<le> length d \<and> field d 0 4 = MYIR_MAGIC \<and> field d 4 1 = MYIR_VER)
   \<and> (\<forall>h. parseMyirHeader d = Some h \<longrightarrow>
          StreamInfo.chunkId h < 65536 \<and> StreamInfo.chunksTotal h < 65536
        \<and> StreamInfo.frameSize h < 4294967296)"
proof (intro conjI allI impI)
  show "parseMyirHeader d \<noteq> None \<longleftrightarrow>
      36 \<le> length d \<and> field d 0 4 = MYIR_MAGIC \<and> field d 4 1 = MYIR_VER"
    by (auto simp add: parseMyirHeader_eq)
next
  fix h assume "parseMyirHeader d = Some h"
  then have h: "StreamInfo.chunkId h = field d 28 2" "StreamInfo.chunksTotal h = field d 30 2"
    "StreamInfo.frameSize h = field d 24 4"
    by (auto simp add: parseMyirHeader_eq split: if_splits)
  show "StreamInfo.chunkId h < 65536"
    using field_less [of d 28 2] by (simp add: h)
  show "StreamInfo.chunksTotal h < 65536"
    using field_less [of d 30 2] by (simp add: h)
  show "StreamInfo.frameSize h < 4294967296"
    using field_less [of d 24 4] by (simp add: h)
qed

text \<open>C3, amended, at \<open>zero_header\<close>.\<close>

theorem parse_valid_iff_wire_ranges_witness:
  "parseMyirHeader zero_header \<noteq> None
   \<and> StreamInfo.chunkId (the (parseMyirHeader zero_header)) < 65536
   \<and> StreamInfo.chunksTotal (the (parseMyirHeader zero_header)) < 65536
   \<and> StreamInfo.frameSize (the (parseMyirHeader zero_header)) < 4294967296"
proof -
  have "36 \<le> length zero_header" "field zero_header 0 4 = MYIR_MAGIC"
    "field zero_header 4 1 = MYIR_VER"
    by (simp_all add: zero_header_def field_def be_decode_def MYIR_MAGIC_def MYIR_VER_def)
  with parse_valid_iff_wire_ranges [of zero_header]
  have a: "parseMyirHeader zero_header \<noteq> None" by blast
  then obtain h where h: "parseMyirHeader zero_header = Some h" by blast
  with parse_valid_iff_wire_ranges [of zero_header]
  have "StreamInfo.chunkId h < 65536 \<and> StreamInfo.chunksTotal h < 65536
        \<and> StreamInfo.frameSize h < 4294967296" by blast
  with a h show ?thesis by simp
qed

lemma processBuffer_view_error:
  assumes "parseMyirHeader d = Some h" "length d - 36 < payloadLen h"
  shows "processBuffer s ck d = Inl RangeError"
proof -
  from assms(1) have "36 \<le> length d"
    by (simp add: parseMyirHeader_eq split: if_splits)
  with assms(2) have "\<not> 36 + payloadLen h \<le> length d" by arith
  then have "Uint8Array_view d 36 (payloadLen h) = Inl RangeError"
    by (simp add: Uint8Array_view_def)
  with assms(1) show ?thesis by (simp add: processBuffer_def)
qed

text \<open>
  C9.  For a datagram whose header parses as valid, the payload view
  \<open>new Uint8Array(buffer, 36, payloadLen)\<close> is created exactly when \<open>payloadLen\<close> is at
  most the datagram's length minus 36; otherwise \<open>processBuffer\<close> ends with a
  \<open>RangeError\<close>.  Such a datagram exists: a bare sample header that declares four
  payload bytes and carries none.
\<close>

theorem payload_view_in_bounds_iff:
  "(\<forall>h. parseMyirHeader d = Some h \<longrightarrow>
       ((\<exists>p. Uint8Array_view d 36 (payloadLen h) = Inr p) \<longleftrightarrow> payloadLen h \<le> length d - 36)
     \<and> (length d - 36 < payloadLen h \<longrightarrow> processBuffer s ck d = Inl RangeError))
   \<and> parseMyirHeader (sample_header 0 4) \<noteq> None
   \<and> processBuffer s ck (sample_header 0 4) = Inl RangeError"
proof (intro conjI allI impI)
  fix h assume h: "parseMyirHeader d = Some h"
  then have len: "36 \<le> length d"
    by (simp add: parseMyirHeader_eq split: if_splits)
  then show "(\<exists>p. Uint8Array_view d 36 (payloadLen h) = Inr p) \<longleftrightarrow> payloadLen h \<le> length d - 36"
    by (auto simp add: Uint8Array_view_def)
  assume "length d - 36 < payloadLen h"
  with h show "processBuffer s ck d = Inl RangeError"
    by (rule processBuffer_view_error)
next
  have p: "parseMyirHeader (sample_header 0 4 @ []) =
     Some \<lparr> StreamInfo.frameId = 7, StreamInfo.chunkId = unat (0::byte),
            StreamInfo.chunksTotal = 3, StreamInfo.frameSize = 70000,
            StreamInfo.width = 640, StreamInfo.height = 480,
            payloadLen = unat (4::byte) \<rparr>"
    by (rule sample_header_parse)
  then show "parseMyirHeader (sample_header 0 4) \<noteq> None" by simp
  have "length (sample_header 0 4) = 36" by (simp add: sample_header_def)
  with p show "processBuffer s ck (sample_header 0 4) = Inl RangeError"
    by (intro processBuffer_view_error [where h = "the (parseMyirHeader (sample_header 0 4))"]) simp_all
qed

text \<open>C9 at a datagram that declares four payload bytes and carries three, and the
  view of one that carries all four.\<close>

theorem payload_view_in_bounds_iff_witness:
  "parseMyirHeader (sample_header 0 4 @ [1, 2, 3]) \<noteq> None
   \<and> Uint8Array_view (sample_header 0 4 @ [1, 2, 3]) 36 4 = Inl RangeError
   \<and> processBuffer app_init \<lparr> t_new = 5, t_add = 5, t_fps = 5, t_gc = 5 \<rparr>
        (sample_header 0 4 @ [1, 2, 3]) = Inl RangeError
   \<and> Uint8Array_view (sample_header 0 4 @ [1, 2, 3, 4]) 36 4 = Inr [1, 2, 3, 4]"
proof -
  let ?d = "sample_header 0 4 @ [1, 2, 3]"
  let ?h = "\<lparr> StreamInfo.frameId = 7, StreamInfo.chunkId = unat (0::byte),
            StreamInfo.chunksTotal = 3, StreamInfo.frameSize = 70000,
            StreamInfo.width = 640, StreamInfo.height = 480,
            payloadLen = unat (4::byte) \<rparr>"
  have p: "parseMyirHeader ?d = Some ?h" by (rule sample_header_parse)
  have l: "length ?d - 36 < payloadLen ?h" by (simp add: sample_header_def)
  from payload_view_in_bounds_iff [of ?d app_init "\<lparr> t_new = 5, t_add = 5, t_fps = 5, t_gc = 5 \<rparr>"] p l
  have "processBuffer app_init \<lparr> t_new = 5, t_add = 5, t_fps = 5, t_gc = 5 \<rparr> ?d = Inl RangeError"
    by blast
  moreover have "Uint8Array_view ?d 36 4 = Inl RangeError"
    by (simp add: Uint8Array_view_def sample_header_def)
  moreover have "Uint8Array_view (sample_header 0 4 @ [1, 2, 3, 4]) 36 4 = Inr [1, 2, 3, 4]"
    by (simp add: Uint8Array_view_def sample_header_def)
  ultimately show ?thesis using p by simp
qed

section \<open>The assembler\<close>

lemma set_in_bounds:
  assumes "offset < length buf"
  shows "Uint8Array_set buf (subarray0 p (min (length p) (length buf - offset))) offset =
         Inr (written buf offset p)"
proof -
  have "offset + min (length p) (length buf - offset) \<le> length buf"
    using assms by arith
  then show ?thesis
    by (simp add: Uint8Array_set_def subarray0_def written_def Let_def)
qed

lemma addChunk_eq:
  "addChunk a cid p t =
     (if accepts a cid
      then Inr (card (insert cid (receivedChunks a)) = totalChunks a,
                a \<lparr> buffer := written (buffer a) (cid * chunkPayloadSize a) p,
                    receivedChunks := insert cid (receivedChunks a),
                    lastUpdate := t \<rparr>)
      else Inr (False, a))"
proof (cases "accepts a cid")
  case True
  then have "cid * chunkPayloadSize a < length (buffer a)"
    by (simp add: accepts_def)
  from set_in_bounds [OF this] True show ?thesis
    by (simp add: addChunk_def accepts_def Let_def isComplete_def)
next
  case False
  then show ?thesis
    by (auto simp add: addChunk_def accepts_def Let_def)
qed

text \<open>
  C5.  After any call of \<open>addChunk\<close> for a chunk id, a second call for the same id
  returns false and leaves the assembler (buffer, received set, last update and all)
  exactly as the first call left it, whatever the payload and the time of the second.
\<close>

theorem addChunk_duplicate_no_effect:
  "addChunk a cid p1 t1 = Inr (b, a1) \<Longrightarrow> addChunk a1 cid p2 t2 = Inr (False, a1)"
proof (cases "accepts a cid")
  case True
  assume "addChunk a cid p1 t1 = Inr (b, a1)"
  with True have "cid \<in> receivedChunks a1"
    by (auto simp add: addChunk_eq)
  then have "\<not> accepts a1 cid" by (simp add: accepts_def)
  then show ?thesis by (simp add: addChunk_eq)
next
  case False
  assume "addChunk a cid p1 t1 = Inr (b, a1)"
  with False have "a1 = a" by (simp add: addChunk_eq)
  with False show ?thesis by (simp add: addChunk_eq)
qed

text \<open>C5 at a fresh two-chunk assembler: chunk 0 is stored, its repetition with another
  payload changes nothing.\<close>

theorem addChunk_duplicate_no_effect_witness:
  "addChunk (FrameAssembler_new (small_info 1 0) 100) 0 [5] 100 = Inr (False, small_asm 1 5 100)
   \<and> addChunk (small_asm 1 5 100) 0 [9, 9, 9] 200 = Inr (False, small_asm 1 5 100)"
proof -
  have 1: "addChunk (FrameAssembler_new (small_info 1 0) 100) 0 [5] 100 =
           Inr (False, small_asm 1 5 100)"
    by (simp add: addChunk_def small_info_def small_asm_def FrameAssembler_new_def
        Uint8Array_new_def Uint8Array_set_def subarray0_def isComplete_def Let_def
        numeral_3_eq_3)
  from addChunk_duplicate_no_effect [OF 1] 1 show ?thesis by simp
qed

subsection \<open>The buffer keeps its length\<close>

lemma length_written: "offset < length buf \<Longrightarrow> length (written buf offset p) = length buf"
  by (simp add: written_def Let_def) 

lemma addChunk_keeps:
  "addChunk a cid p t = Inr (b, a') \<Longrightarrow>
     length (buffer a') = length (buffer a) \<and> frameSize a' = frameSize a
     \<and> totalChunks a' = totalChunks a \<and> chunkPayloadSize a' = chunkPayloadSize a"
  by (auto simp add: addChunk_eq accepts_def length_written split: if_splits)

lemma addChunk_total: "\<exists>b a'. addChunk a cid p t = Inr (b, a')"
  by (cases "accepts a cid") (auto simp add: addChunk_eq)

lemma addChunks_keeps:
  "\<exists>a'. addChunks a cs = Inr a' \<and> length (buffer a') = length (buffer a)
        \<and> frameSize a' = frameSize a"
proof (induction cs arbitrary: a)
  case Nil
  then show ?case by simp
next
  case (Cons c cs)
  obtain cid p t where c: "c = (cid, p, t)" by (cases c) auto
  obtain b a1 where 1: "addChunk a cid p t = Inr (b, a1)"
    using addChunk_total by blast
  from addChunk_keeps [OF 1] Cons.IH [of a1] 1 c show ?case by auto
qed

lemma sized_new: "sized (FrameAssembler_new h t)"
  by (simp add: sized_def FrameAssembler_new_def Uint8Array_new_def)

lemma sized_addChunk: "sized a \<Longrightarrow> addChunk a cid p t = Inr (b, a') \<Longrightarrow> sized a'"
  using addChunk_keeps [of a cid p t b a'] by (simp add: sized_def)

section \<open>The reassembler\<close>

lemma update_absent: "map_of al k = None \<Longrightarrow> AList.update k v al = al @ [(k, v)]"
  by (induction al) (auto split: if_splits)

lemma delete_absent: "map_of al k = None \<Longrightarrow> AList.delete k al = al"
  by (induction al) (auto split: if_splits)

lemma update_snoc_absent:
  "map_of al k = None \<Longrightarrow> AList.update k v' (al @ [(k, v)]) = al @ [(k, v')]"
  by (induction al) (auto split: if_splits)

lemma delete_snoc_absent:
  "map_of al k = None \<Longrightarrow> AList.delete k (al @ [(k, v)]) = al"
  by (induction al) (auto split: if_splits)

lemma push_existing:
  assumes "map_of (frames r) (StreamInfo.frameId h) = Some a"
  shows "push r t1 t2 h p =
     (if accepts a (StreamInfo.chunkId h)
      then (let a' = a \<lparr> buffer := written (buffer a) (StreamInfo.chunkId h * chunkPayloadSize a) p,
                    receivedChunks := insert (StreamInfo.chunkId h) (receivedChunks a),
                    lastUpdate := t2 \<rparr>
            in if card (receivedChunks a') = totalChunks a
               then Inr (Some a', r \<lparr> frames := AList.delete (StreamInfo.frameId h) (frames r) \<rparr>)
               else Inr (None, r \<lparr> frames := AList.update (StreamInfo.frameId h) a' (frames r) \<rparr>))
      else Inr (None, r))"
  using assms
  by (simp add: push_def addChunk_eq Let_def AList.delete_update_same AList.update_triv)

lemma push_absent:
  assumes "map_of (frames r) (StreamInfo.frameId h) = None"
  shows "push r t1 t2 h p =
     (let a = FrameAssembler_new h t1 in
      if accepts a (StreamInfo.chunkId h)
      then (let a' = a \<lparr> buffer := written (buffer a) (StreamInfo.chunkId h * chunkPayloadSize a) p,
                    receivedChunks := insert (StreamInfo.chunkId h) (receivedChunks a),
                    lastUpdate := t2 \<rparr>
            in if card (receivedChunks a') = totalChunks a
               then Inr (Some a', r)
               else Inr (None, r \<lparr> frames := frames r @ [(StreamInfo.frameId h, a')] \<rparr>))
      else Inr (None, r \<lparr> frames := frames r @ [(StreamInfo.frameId h, a)] \<rparr>))"
  using assms
  by (simp add: push_def addChunk_eq Let_def update_absent update_snoc_absent delete_snoc_absent)

lemma zero_total_not_accepts: "totalChunks a = 0 \<Longrightarrow> \<not> accepts a cid"
  by (simp add: accepts_def)

lemma pushes_zero_total:
  assumes "map_of (frames r) fid = Some a" "totalChunks a = 0"
    "\<forall>e\<in>set es. StreamInfo.frameId (fst (snd (snd e))) = fid"
  shows "pushes r es = Inr (replicate (length es) None, r)"
  using assms(3)
proof (induction es)
  case Nil
  then show ?case by simp
next
  case (Cons e es)
  obtain t1 t2 h p where e: "e = (t1, t2, h, p)" by (cases e) auto
  with Cons.prems have fid: "StreamInfo.frameId h = fid" by simp
  have "push r t1 t2 h p = Inr (None, r)"
    using assms(1,2) by (simp add: push_existing fid zero_total_not_accepts)
  with Cons e show ?case by simp
qed

text \<open>
  C10.  For a header with \<open>chunksTotal = 0\<close>: the new assembler is complete at once;
  every \<open>addChunk\<close> on it returns false and changes nothing; and when the frame id is
  not yet in the table, the push of that header and every later push for the same
  frame id return \<open>null\<close>, the table holding the assembler created by the first push,
  unchanged, after all of them.  (Only \<open>gc\<close> can remove it.)
\<close>

theorem zero_chunks_frame_never_emitted:
  "StreamInfo.chunksTotal h = 0 \<longrightarrow>
     isComplete (FrameAssembler_new h t1)
   \<and> addChunk (FrameAssembler_new h t1) cid p' t = Inr (False, FrameAssembler_new h t1)
   \<and> (map_of (frames r) (StreamInfo.frameId h) = None
       \<and> (\<forall>e\<in>set es. StreamInfo.frameId (fst (snd (snd e))) = StreamInfo.frameId h)
       \<longrightarrow> pushes r ((t1, t2, h, p) # es) =
             Inr (replicate (Suc (length es)) None,
                  r \<lparr> frames := frames r @ [(StreamInfo.frameId h, FrameAssembler_new h t1)] \<rparr>))"
proof (intro impI conjI)
  assume z: "StreamInfo.chunksTotal h = 0"
  then have tz: "totalChunks (FrameAssembler_new h t1) = 0"
    by (simp add: FrameAssembler_new_def)
  show "isComplete (FrameAssembler_new h t1)"
    using z by (simp add: isComplete_def FrameAssembler_new_def)
  show "addChunk (FrameAssembler_new h t1) cid p' t = Inr (False, FrameAssembler_new h t1)"
    using tz by (simp add: addChunk_eq zero_total_not_accepts)
  assume a: "map_of (frames r) (StreamInfo.frameId h) = None
       \<and> (\<forall>e\<in>set es. StreamInfo.frameId (fst (snd (snd e))) = StreamInfo.frameId h)"
  let ?r = "r \<lparr> frames := frames r @ [(StreamInfo.frameId h, FrameAssembler_new h t1)] \<rparr>"
  have 1: "push r t1 t2 h p = Inr (None, ?r)"
    using a tz by (simp add: push_absent Let_def zero_total_not_accepts)
  have "map_of (frames ?r) (StreamInfo.frameId h) = Some (FrameAssembler_new h t1)"
    using a by (simp add: map_add_Some_iff)
  from pushes_zero_total [OF this tz] a
  have "pushes ?r es = Inr (replicate (length es) None, ?r)" by blast
  with 1 show "pushes r ((t1, t2, h, p) # es) = Inr (replicate (Suc (length es)) None, ?r)"
    by simp
qed

text \<open>C10 at a header with no chunks, pushed twice into a new reassembler.\<close>

theorem zero_chunks_frame_never_emitted_witness:
  "isComplete (FrameAssembler_new hdr0 100)
   \<and> addChunk (FrameAssembler_new hdr0 100) 0 [7] 101 = Inr (False, FrameAssembler_new hdr0 100)
   \<and> pushes (Reassembler_new 8)
        [(100, 101, hdr0, [7]), (102, 103, hdr0 \<lparr> StreamInfo.chunkId := 1 \<rparr>, [8])] =
      Inr ([None, None],
           \<lparr> frames = [(9, FrameAssembler_new hdr0 100)], maxFrames = 8 \<rparr>)"
proof -
  have "StreamInfo.chunksTotal hdr0 = 0" by (simp add: hdr0_def)
  moreover have "map_of (frames (Reassembler_new 8)) (StreamInfo.frameId hdr0) = None
     \<and> (\<forall>e\<in>set [(102::int, 103::int, hdr0 \<lparr> StreamInfo.chunkId := 1 \<rparr>, [8::byte])].
            StreamInfo.frameId (fst (snd (snd e))) = StreamInfo.frameId hdr0)"
    by (simp add: Reassembler_new_def)
  ultimately show ?thesis
    using zero_chunks_frame_never_emitted [of hdr0 100 0 "[7]" 101 "Reassembler_new 8"
        "[(102, 103, hdr0 \<lparr> StreamInfo.chunkId := 1 \<rparr>, [8])]" 101 "[7]"]
    by (simp add: Reassembler_new_def hdr0_def)
qed

subsection \<open>Garbage collection\<close>

lemma toDelete_eq:
  "foldl (\<lambda>acc (fid, frame). if now - lastUpdate frame > maxAgeMs then acc @ [fid] else acc)
         acc0 al =
   acc0 @ map fst (filter (\<lambda>(fid, f). stale now maxAgeMs f) al)"
  by (induction al arbitrary: acc0) (auto simp add: stale_def)

lemma delete_all_eq:
  "foldl (\<lambda>fs fid. AList.delete fid fs) al ks = filter (\<lambda>(k, f). k \<notin> set ks) al"
proof (induction ks arbitrary: al)
  case Nil
  then show ?case by simp
next
  case (Cons k ks)
  have "filter (\<lambda>(k', f). k' \<notin> set ks) (AList.delete k al) =
        filter (\<lambda>(k', f). k' \<notin> set (k # ks)) al"
    by (auto simp add: AList.delete_eq intro!: filter_cong)
  with Cons show ?case by simp
qed

lemma gc_frames_distinct:
  assumes "distinct (map fst al)"
  shows "filter (\<lambda>(k, f). k \<notin> set (map fst (filter (\<lambda>(fid, f). stale now m f) al))) al =
         filter (\<lambda>(k, f). \<not> stale now m f) al"
proof (rule filter_cong [OF refl])
  fix e assume e: "e \<in> set al"
  obtain k f where kf: "e = (k, f)" by (cases e)
  have "k \<in> set (map fst (filter (\<lambda>(fid, f). stale now m f) al)) \<longleftrightarrow> stale now m f"
  proof
    assume "k \<in> set (map fst (filter (\<lambda>(fid, f). stale now m f) al))"
    then obtain f' where f': "(k, f') \<in> set al" "stale now m f'" by auto
    from assms f'(1) e kf have "f' = f" by (auto dest: eq_key_imp_eq_value)
    with f' show "stale now m f" by simp
  next
    assume "stale now m f"
    with e kf show "k \<in> set (map fst (filter (\<lambda>(fid, f). stale now m f) al))"
      by force
  qed
  then show "(case e of (k, f) \<Rightarrow> k \<notin> set (map fst (filter (\<lambda>(fid, f). stale now m f) al))) =
             (case e of (k, f) \<Rightarrow> \<not> stale now m f)"
    by (simp add: kf)
qed

lemma gc_eq:
  "gc r now m =
     (if length (frames r) \<le> maxFrames r then r
      else r \<lparr> frames := filter (\<lambda>(k, f). k \<notin> set (map fst (filter (\<lambda>(fid, f). stale now m f) (frames r)))) (frames r) \<rparr>)"
  by (simp add: gc_def Let_def toDelete_eq delete_all_eq)

lemma distinct_filter_keys: "distinct (map fst al) \<Longrightarrow> distinct (map fst (filter P al))"
  by (simp add: distinct_map_filter)

lemma push_distinct:
  assumes "distinct (map fst (frames r))" "push r t1 t2 h p = Inr (res, r')"
  shows "distinct (map fst (frames r'))"
proof -
  have d: "\<And>k v w. distinct (map fst (AList.delete k (AList.update k w (AList.update k v (frames r)))))"
    "\<And>k v w. distinct (map fst (AList.update k w (AList.update k v (frames r))))"
    "\<And>k w. distinct (map fst (AList.delete k (AList.update k w (frames r))))"
    "\<And>k w. distinct (map fst (AList.update k w (frames r)))"
    using assms(1) by (simp_all add: AList.distinct_update AList.distinct_delete)
  from assms(2) show ?thesis
    unfolding push_def Let_def
    by (auto simp add: addChunk_eq d split: option.splits if_splits)
qed

lemma reachable_distinct: "reachable r \<Longrightarrow> distinct (map fst (frames r))"
proof (induction rule: reachable.induct)
  case (reach_new n)
  then show ?case by (simp add: Reassembler_new_def)
next
  case (reach_push r t1 t2 header payload res r')
  then show ?case by (blast intro: push_distinct)
next
  case (reach_gc r now maxAgeMs)
  then show ?case by (simp add: gc_eq distinct_filter_keys)
qed

lemma pushes_reachable:
  "reachable r \<Longrightarrow> pushes r es = Inr (ress, r') \<Longrightarrow> reachable r'"
proof (induction es arbitrary: r ress)
  case Nil
  then show ?case by simp
next
  case (Cons e es)
  obtain t1 t2 h p where e: "e = (t1, t2, h, p)" by (cases e) auto
  from Cons.prems(2) e obtain res r1 ress1 where
    1: "push r t1 t2 h p = Inr (res, r1)" and 2: "pushes r1 es = Inr (ress1, r')"
    by (auto simp add: bindE_def split: sum.splits prod.splits)
  from Cons.prems(1) 1 have "reachable r1" by (rule reach_push)
  from Cons.IH [OF this 2] show ?case .
qed

lemma small_pushes:
  "pushes (Reassembler_new 1)
     [(100, 100, small_info 1 0, [5]), (5000, 5000, small_info 2 0, [6])] =
   Inr ([None, None],
        \<lparr> frames = [(1, small_asm 1 5 100), (2, small_asm 2 6 5000)], maxFrames = 1 \<rparr>)"
  by (simp add: push_def addChunk_def Reassembler_new_def small_info_def small_asm_def
      FrameAssembler_new_def Uint8Array_new_def Uint8Array_set_def subarray0_def
      isComplete_def Let_def numeral_3_eq_3)

lemma small_push1:
  "pushes (Reassembler_new 1) [(100, 100, small_info 1 0, [5])] =
   Inr ([None], \<lparr> frames = [(1, small_asm 1 5 100)], maxFrames = 1 \<rparr>)"
  by (simp add: push_def addChunk_def Reassembler_new_def small_info_def small_asm_def
      FrameAssembler_new_def Uint8Array_new_def Uint8Array_set_def subarray0_def
      isComplete_def Let_def numeral_3_eq_3)

text \<open>
  C7.  In every reachable state: \<open>gc\<close> returns the reassembler unchanged when the table
  holds at most \<open>maxFrames\<close> entries; when it holds more, \<open>gc\<close> keeps exactly the
  entries whose last update is not older than \<open>maxAgeMs\<close> (in their order) and removes
  the others; and in either case an entry whose age is at most \<open>maxAgeMs\<close> is still in
  the table afterwards.
\<close>

theorem gc_evicts_only_stale_over_capacity:
  "reachable r \<Longrightarrow>
     (length (frames r) \<le> maxFrames r \<longrightarrow> gc r now maxAgeMs = r)
   \<and> (length (frames r) > maxFrames r \<longrightarrow>
        gc r now maxAgeMs =
          r \<lparr> frames := filter (\<lambda>(fid, f). \<not> now - lastUpdate f > maxAgeMs) (frames r) \<rparr>)
   \<and> (\<forall>e\<in>set (frames r). now - lastUpdate (snd e) \<le> maxAgeMs
          \<longrightarrow> e \<in> set (frames (gc r now maxAgeMs)))"
proof -
  assume "reachable r"
  then have d: "distinct (map fst (frames r))" by (rule reachable_distinct)
  have eq: "gc r now maxAgeMs =
     (if length (frames r) \<le> maxFrames r then r
      else r \<lparr> frames := filter (\<lambda>(fid, f). \<not> now - lastUpdate f > maxAgeMs) (frames r) \<rparr>)"
    unfolding gc_eq gc_frames_distinct [OF d]
    by (simp add: stale_def)
  show ?thesis
    by (auto simp add: eq)
qed

text \<open>C7 at two reachable states with \<open>maxFrames = 1\<close>: with two entries the stale one
  goes and the fresh one stays; with one entry nothing changes.\<close>

theorem gc_evicts_only_stale_over_capacity_witness:
  "gc \<lparr> frames = [(1, small_asm 1 5 100), (2, small_asm 2 6 5000)], maxFrames = 1 \<rparr> 5500 1000 =
     \<lparr> frames = [(2, small_asm 2 6 5000)], maxFrames = 1 \<rparr>
   \<and> gc \<lparr> frames = [(1, small_asm 1 5 100)], maxFrames = 1 \<rparr> 5500 1000 =
     \<lparr> frames = [(1, small_asm 1 5 100)], maxFrames = 1 \<rparr>
   \<and> (2, small_asm 2 6 5000) \<in> set (frames
        (gc \<lparr> frames = [(1, small_asm 1 5 100), (2, small_asm 2 6 5000)], maxFrames = 1 \<rparr>
            5500 1000))"
proof -
  let ?r2 = "\<lparr> frames = [(1, small_asm 1 5 100), (2, small_asm 2 6 5000)], maxFrames = 1 \<rparr>"
  let ?r1 = "\<lparr> frames = [(1, small_asm 1 5 100)], maxFrames = 1 \<rparr>"
  have r2: "reachable ?r2" by (rule pushes_reachable [OF reach_new small_pushes])
  have r1: "reachable ?r1" by (rule pushes_reachable [OF reach_new small_push1])
  have a: "length (frames ?r2) > maxFrames ?r2" by simp
  have b: "length (frames ?r1) \<le> maxFrames ?r1" by simp
  have c: "(2, small_asm 2 6 5000) \<in> set (frames ?r2)"
    "5500 - lastUpdate (snd (2::nat, small_asm 2 6 5000)) \<le> 1000"
    by (simp_all add: small_asm_def)
  from gc_evicts_only_stale_over_capacity [OF r2, of 5500 1000] a
  have "gc ?r2 5500 1000 =
        ?r2 \<lparr> frames := filter (\<lambda>(fid, f). \<not> 5500 - lastUpdate f > 1000) (frames ?r2) \<rparr>"
    by blast
  then have 1: "gc ?r2 5500 1000 = \<lparr> frames = [(2, small_asm 2 6 5000)], maxFrames = 1 \<rparr>"
    by (simp add: small_asm_def)
  from gc_evicts_only_stale_over_capacity [OF r1, of 5500 1000] b
  have 2: "gc ?r1 5500 1000 = ?r1" by blast
  from gc_evicts_only_stale_over_capacity [OF r2, of 5500 1000] c
  have 3: "(2, small_asm 2 6 5000) \<in> set (frames (gc ?r2 5500 1000))" by blast
  from 1 2 3 show ?thesis by simp
qed

subsection \<open>Buffer sizes in the table\<close>

lemma set_update_subset: "set (AList.update k v al) \<subseteq> insert (k, v) (set al)"
  by (induction al) auto

lemma set_delete_subset: "set (AList.delete k al) \<subseteq> set al"
  by (auto simp add: AList.delete_eq)

lemma push_sized:
  assumes "\<forall>e\<in>set (frames r). sized (snd e)" "push r t1 t2 h p = Inr (res, r')"
  shows "(\<forall>e\<in>set (frames r'). sized (snd e)) \<and> (\<forall>f. res = Some f \<longrightarrow> sized f)"
proof (cases "map_of (frames r) (StreamInfo.frameId h)")
  case None
  let ?a = "FrameAssembler_new h t1"
  obtain b a' where 1: "addChunk ?a (StreamInfo.chunkId h) p t2 = Inr (b, a')"
    using addChunk_total by blast
  have s: "sized a'" using sized_new 1 by (rule sized_addChunk)
  from assms(2) None 1 have "(res = Some a' \<and> r' = r) \<or>
      (res = None \<and> r' = r \<lparr> frames := frames r @ [(StreamInfo.frameId h, a')] \<rparr>)"
    by (auto simp add: push_def Let_def update_absent update_snoc_absent delete_snoc_absent
        split: if_splits)
  with s assms(1) show ?thesis by auto
next
  case (Some a)
  then have "(StreamInfo.frameId h, a) \<in> set (frames r)" by (rule map_of_SomeD)
  with assms(1) have sa: "sized a" by force
  obtain b a' where 1: "addChunk a (StreamInfo.chunkId h) p t2 = Inr (b, a')"
    using addChunk_total by blast
  have s: "sized a'" using sa 1 by (rule sized_addChunk)
  from assms(2) Some 1 have "(res = Some a' \<and> r' = r \<lparr> frames := AList.delete (StreamInfo.frameId h) (frames r) \<rparr>) \<or>
      (res = None \<and> r' = r \<lparr> frames := AList.update (StreamInfo.frameId h) a' (frames r) \<rparr>)"
    by (auto simp add: push_def Let_def AList.delete_update_same AList.update_triv
        split: if_splits)
  moreover have "set (AList.delete (StreamInfo.frameId h) (frames r)) \<subseteq> set (frames r)"
    by (rule set_delete_subset)
  moreover have "set (AList.update (StreamInfo.frameId h) a' (frames r)) \<subseteq>
        insert (StreamInfo.frameId h, a') (set (frames r))"
    by (rule set_update_subset)
  ultimately show ?thesis using s assms(1) by auto
qed

lemma reachable_sized: "reachable r \<Longrightarrow> \<forall>e\<in>set (frames r). sized (snd e)"
proof (induction rule: reachable.induct)
  case (reach_new n)
  then show ?case by (simp add: Reassembler_new_def)
next
  case (reach_push r t1 t2 header payload res r')
  from push_sized [OF reach_push.IH reach_push.hyps(2)] show ?case by blast
next
  case (reach_gc r now maxAgeMs)
  then show ?case by (auto simp add: gc_eq)
qed

text \<open>
  C2.  The constructor allocates a buffer of exactly \<open>frameSize\<close> bytes.  No
  \<open>addChunk\<close> call raises or changes the buffer's length: when the offset check passes,
  offset + bytesToCopy is at most the buffer length, so the copy fits and the result has
  the same length.  After any list of \<open>addChunk\<close> calls on a new assembler the buffer,
  and what \<open>getJpegData\<close> returns, have exactly \<open>frameSize\<close> bytes; and every frame
  that \<open>push\<close> returns from a reachable reassembler has a buffer and a
  \<open>getJpegData\<close> of exactly its \<open>frameSize\<close> bytes.
\<close>

theorem buffer_length_fixed:
  "length (buffer (FrameAssembler_new h t)) = StreamInfo.frameSize h
   \<and> (\<exists>b a'. addChunk a cid p t' = Inr (b, a') \<and> length (buffer a') = length (buffer a))
   \<and> (cid * chunkPayloadSize a < length (buffer a) \<longrightarrow>
        cid * chunkPayloadSize a
          + min (length p) (length (buffer a) - cid * chunkPayloadSize a) \<le> length (buffer a)
        \<and> (\<exists>b. Uint8Array_set (buffer a)
                 (subarray0 p (min (length p) (length (buffer a) - cid * chunkPayloadSize a)))
                 (cid * chunkPayloadSize a) = Inr b \<and> length b = length (buffer a)))
   \<and> (\<exists>a'. addChunks (FrameAssembler_new h t) cs = Inr a'
          \<and> length (buffer a') = StreamInfo.frameSize h
          \<and> length (getJpegData a') = StreamInfo.frameSize h)
   \<and> (reachable r \<and> push r t1 t2 header pl = Inr (Some f, r') \<longrightarrow>
        length (buffer f) = frameSize f \<and> length (getJpegData f) = frameSize f)"
proof (intro conjI impI)
  show "length (buffer (FrameAssembler_new h t)) = StreamInfo.frameSize h"
    by (simp add: FrameAssembler_new_def Uint8Array_new_def)
  show "\<exists>b a'. addChunk a cid p t' = Inr (b, a') \<and> length (buffer a') = length (buffer a)"
    using addChunk_total [of a cid p t'] addChunk_keeps [of a cid p t'] by blast
  show "\<exists>a'. addChunks (FrameAssembler_new h t) cs = Inr a'
          \<and> length (buffer a') = StreamInfo.frameSize h
          \<and> length (getJpegData a') = StreamInfo.frameSize h"
    using addChunks_keeps [of "FrameAssembler_new h t" cs]
    by (auto simp add: getJpegData_def slice0_def FrameAssembler_new_def Uint8Array_new_def)
next
  assume off: "cid * chunkPayloadSize a < length (buffer a)"
  then show "cid * chunkPayloadSize a
          + min (length p) (length (buffer a) - cid * chunkPayloadSize a) \<le> length (buffer a)"
    by arith
  show "\<exists>b. Uint8Array_set (buffer a)
                 (subarray0 p (min (length p) (length (buffer a) - cid * chunkPayloadSize a)))
                 (cid * chunkPayloadSize a) = Inr b \<and> length b = length (buffer a)"
    using set_in_bounds [OF off, of p] length_written [OF off, of p] by simp
next
  assume a: "reachable r \<and> push r t1 t2 header pl = Inr (Some f, r')"
  then have "reachable r" by simp
  then have "\<forall>e\<in>set (frames r). sized (snd e)" by (rule reachable_sized)
  from push_sized [OF this] a have "sized f" by blast
  then show "length (buffer f) = frameSize f" "length (getJpegData f) = frameSize f"
    by (simp_all add: sized_def getJpegData_def slice0_def)
qed

text \<open>C2 at a one-chunk frame of three bytes completed by a two-byte payload.\<close>

theorem buffer_length_fixed_witness:
  "push (Reassembler_new 8) 100 101 one_info [1, 2] = Inr (Some one_asm, Reassembler_new 8)
   \<and> length (getJpegData one_asm) = 3 \<and> length (buffer one_asm) = 3
   \<and> 0 * chunkPayloadSize (FrameAssembler_new one_info 100)
        + min (length [1::byte, 2]) (length (buffer (FrameAssembler_new one_info 100))
             - 0 * chunkPayloadSize (FrameAssembler_new one_info 100))
       \<le> length (buffer (FrameAssembler_new one_info 100))"
proof -
  have 1: "push (Reassembler_new 8) 100 101 one_info [1, 2] =
           Inr (Some one_asm, Reassembler_new 8)"
    by (simp add: push_def addChunk_def Reassembler_new_def one_info_def one_asm_def
      FrameAssembler_new_def Uint8Array_new_def Uint8Array_set_def subarray0_def
      isComplete_def Let_def numeral_3_eq_3)
  have 2: "reachable (Reassembler_new 8)" by (rule reach_new)
  have 3: "0 * chunkPayloadSize (FrameAssembler_new one_info 100)
             < length (buffer (FrameAssembler_new one_info 100))"
    by (simp add: FrameAssembler_new_def one_info_def Uint8Array_new_def)
  note t = buffer_length_fixed [of one_info 100 "FrameAssembler_new one_info 100" 0 "[1, 2]" 101
      "[]" "Reassembler_new 8" 100 101 one_info "[1, 2]" one_asm "Reassembler_new 8"]
  from t 1 2 have "length (buffer one_asm) = frameSize one_asm
      \<and> length (getJpegData one_asm) = frameSize one_asm" by blast
  moreover from t 3 have "0 * chunkPayloadSize (FrameAssembler_new one_info 100)
        + min (length [1::byte, 2]) (length (buffer (FrameAssembler_new one_info 100))
             - 0 * chunkPayloadSize (FrameAssembler_new one_info 100))
       \<le> length (buffer (FrameAssembler_new one_info 100))" by blast
  moreover have "frameSize one_asm = 3" by (simp add: one_asm_def)
  ultimately show ?thesis using 1 by simp
qed

section \<open>The frame-rate counter\<close>

text \<open>
  C8.  With the window start taken as \<open>now\<close> on the first call (\<open>lastTime = 0\<close>) and as
  \<open>lastTime\<close> otherwise: a rate is returned exactly when \<open>now\<close> minus the window start
  is at least 1000; then the rate is (count + 1) * 1000 / (now - window start), the count
  becomes 0 and the window start \<open>now\<close>; otherwise nothing is returned, the count grows
  by one and the window start stays.  The first call on a new counter returns nothing
  and leaves count 1 and window start \<open>now\<close>.
\<close>

theorem fpsCounter_record_window:
  "(let ws = (if lastTime c = 0 then now else lastTime c);
        (rate, c') = fpsCounter_record c now
    in (rate \<noteq> None \<longleftrightarrow> now - ws \<ge> 1000)
     \<and> (now - ws \<ge> 1000 \<longrightarrow>
          rate = Some (of_nat ((count c + 1) * 1000) / of_int (now - ws))
          \<and> c' = \<lparr> count = 0, lastTime = now \<rparr>)
     \<and> (now - ws < 1000 \<longrightarrow>
          rate = None \<and> c' = \<lparr> count = count c + 1, lastTime = ws \<rparr>))
   \<and> fpsCounter_record \<lparr> count = 0, lastTime = 0 \<rparr> now =
       (None, \<lparr> count = 1, lastTime = now \<rparr>)"
  by (simp add: fpsCounter_record_def Let_def)

text \<open>C8 at a counter holding two events since time 1000: at 2500 the rate is
  3 * 1000 / 1500 = 2; at 1999 no rate yet.\<close>

theorem fpsCounter_record_window_witness:
  "fpsCounter_record \<lparr> count = 2, lastTime = 1000 \<rparr> 2500 =
     (Some 2, \<lparr> count = 0, lastTime = 2500 \<rparr>)
   \<and> fpsCounter_record \<lparr> count = 2, lastTime = 1000 \<rparr> 1999 =
     (None, \<lparr> count = 3, lastTime = 1000 \<rparr>)"
  using fpsCounter_record_window [of "\<lparr> count = 2, lastTime = 1000 \<rparr>" 2500]
    fpsCounter_record_window [of "\<lparr> count = 2, lastTime = 1000 \<rparr>" 1999]
  by (simp add: Let_def split: prod.splits)

section \<open>Frames from chunks in any order\<close>

subsection \<open>The buffer after a copy\<close>

lemma length_assembled [simp]: "length (assembled S pl R) = S"
  by (simp add: assembled_def)

lemma nth_assembled:
  "i < S \<Longrightarrow> assembled S pl R ! i =
     (if i div 32768 \<in> R \<and> i mod 32768 < length (pl (i div 32768))
      then pl (i div 32768) ! (i mod 32768) else 0)"
  by (simp add: assembled_def)

lemma assembled_empty: "assembled S pl {} = replicate S 0"
  by (rule nth_equalityI) (simp_all add: nth_assembled)

lemma nth_append3:
  assumes "length A = a" "length B = b"
  shows "(A @ B @ C) ! i =
     (if i < a then A ! i else if i - a < b then B ! (i - a) else C ! (i - a - b))"
  using assms by (auto simp add: nth_append)

lemma nth_written:
  assumes "offset < length buf" "i < length buf"
  shows "written buf offset p ! i =
     (if offset \<le> i \<and> i < offset + min (length p) (length buf - offset)
      then p ! (i - offset) else buf ! i)"
proof -
  define n where "n = min (length p) (length buf - offset)"
  have n: "offset + n \<le> length buf" "n \<le> length p"
    using assms(1) by (simp_all add: n_def)
  have w: "written buf offset p = take offset buf @ take n p @ drop (offset + n) buf"
    by (simp add: written_def Let_def n_def)
  have l: "length (take offset buf) = offset" "length (take n p) = n"
    using assms(1) n by simp_all
  consider "i < offset" | "offset \<le> i" "i < offset + n" | "offset + n \<le> i"
    by arith
  then have "written buf offset p ! i =
     (if offset \<le> i \<and> i < offset + n then p ! (i - offset) else buf ! i)"
  proof cases
    case 1
    then have "written buf offset p ! i = take offset buf ! i"
      unfolding w nth_append3 [OF l] by simp
    with 1 show ?thesis by simp
  next
    case 2
    then have "i - offset < n" by arith
    with 2 have "written buf offset p ! i = take n p ! (i - offset)"
      unfolding w nth_append3 [OF l] by simp
    with 2 \<open>i - offset < n\<close> show ?thesis by simp
  next
    case 3
    then have a: "\<not> i < offset" "\<not> i - offset < n" by arith+
    have e: "offset + n + (i - offset - n) = i" using 3 by arith
    from a have "written buf offset p ! i = drop (offset + n) buf ! (i - offset - n)"
      unfolding w nth_append3 [OF l] by simp
    also have "\<dots> = buf ! (offset + n + (i - offset - n))"
      using n(1) by (rule nth_drop)
    finally show ?thesis using 3 e by simp
  qed
  then show ?thesis by (simp only: n_def)
qed

lemma written_assembled:
  assumes c: "c \<notin> R" and off: "c * 32768 < S" and len: "length (pl c) \<le> 32768"
  shows "written (assembled S pl R) (c * 32768) (pl c) = assembled S pl (insert c R)"
proof (rule nth_equalityI)
  show "length (written (assembled S pl R) (c * 32768) (pl c)) = length (assembled S pl (insert c R))"
    using off by (simp add: length_written)
next
  fix i assume "i < length (written (assembled S pl R) (c * 32768) (pl c))"
  then have i: "i < S" using off by (simp add: length_written)
  define n where "n = min (length (pl c)) (S - c * 32768)"
  have w: "written (assembled S pl R) (c * 32768) (pl c) ! i =
     (if c * 32768 \<le> i \<and> i < c * 32768 + n
      then pl c ! (i - c * 32768) else assembled S pl R ! i)"
    using nth_written [of "c * 32768" "assembled S pl R" i "pl c"] off i
    by (simp add: n_def)
  show "written (assembled S pl R) (c * 32768) (pl c) ! i = assembled S pl (insert c R) ! i"
  proof (cases "i div 32768 = c")
    case True
    have "i = i div 32768 * 32768 + i mod 32768" by simp
    with True have ic: "i = c * 32768 + i mod 32768" by simp
    then have ic': "c * 32768 \<le> i" "i - c * 32768 = i mod 32768" by arith+
    show ?thesis
    proof (cases "i mod 32768 < length (pl c)")
      case in_payload: True
      with ic i have "i < c * 32768 + n" unfolding n_def by arith
      with ic' in_payload True i show ?thesis
        by (simp add: w nth_assembled)
    next
      case False
      with ic have "\<not> i < c * 32768 + n" unfolding n_def by arith
      with False True i c show ?thesis
        by (simp add: w nth_assembled)
    qed
  next
    case False
    have "\<not> (c * 32768 \<le> i \<and> i < c * 32768 + n)"
    proof
      assume a: "c * 32768 \<le> i \<and> i < c * 32768 + n"
      then have "i < c * 32768 + 32768" using len unfolding n_def by arith
      with a have "i div 32768 = c"
        by (intro div_nat_eqI) (simp_all add: mult.commute)
      with False show False by simp
    qed
    then have "written (assembled S pl R) (c * 32768) (pl c) ! i = assembled S pl R ! i"
      unfolding w by (rule if_not_P)
    with False i show ?thesis by (simp add: nth_assembled)
  qed
qed

subsection \<open>One push\<close>

lemma holds_new:
  "holds h pl {} (FrameAssembler_new (h \<lparr> StreamInfo.chunkId := c, payloadLen := l \<rparr>) t)"
  by (simp add: holds_def FrameAssembler_new_def Uint8Array_new_def assembled_empty)

lemma map_of_with_frame:
  "map_of (frames r) fid = None \<Longrightarrow> map_of (frames (with_frame r fid a)) fid = Some a"
  by (simp add: with_frame_def map_add_Some_iff)

lemma push_absent_with_frame:
  assumes "map_of (frames r) (StreamInfo.frameId h) = None"
  shows "push r t1 t2 h p =
         push (with_frame r (StreamInfo.frameId h) (FrameAssembler_new h t1)) t1 t2 h p"
proof -
  let ?a = "FrameAssembler_new h t1"
  have m: "map_of (frames (with_frame r (StreamInfo.frameId h) ?a)) (StreamInfo.frameId h) = Some ?a"
    using assms by (rule map_of_with_frame)
  show ?thesis
    unfolding push_absent [OF assms] push_existing [OF m]
    using assms
    by (simp add: Let_def with_frame_def update_snoc_absent delete_snoc_absent
        FrameAssembler_new_def)
qed

lemma step_rejected:
  assumes "map_of (frames r) fid = None" "StreamInfo.frameId h' = fid"
    "\<not> accepts a (StreamInfo.chunkId h')"
  shows "push (with_frame r fid a) t1 t2 h' p = Inr (None, with_frame r fid a)"
  using push_existing [of "with_frame r fid a" h' a t1 t2 p] map_of_with_frame [OF assms(1), of a]
    assms(2,3)
  by simp

lemma step_accepted:
  assumes "map_of (frames r) fid = None" "StreamInfo.frameId h' = fid"
    "accepts a (StreamInfo.chunkId h')"
  shows "push (with_frame r fid a) t1 t2 h' p =
     (let a' = a \<lparr> buffer := written (buffer a) (StreamInfo.chunkId h' * chunkPayloadSize a) p,
                    receivedChunks := insert (StreamInfo.chunkId h') (receivedChunks a),
                    lastUpdate := t2 \<rparr>
      in if card (receivedChunks a') = totalChunks a then Inr (Some a', r)
         else Inr (None, with_frame r fid a'))"
  using push_existing [of "with_frame r fid a" h' a t1 t2 p] map_of_with_frame [OF assms(1), of a]
    assms
  by (simp add: Let_def with_frame_def update_snoc_absent delete_snoc_absent)

lemma card_full: "R \<subseteq> {0..<N} \<Longrightarrow> card R = N \<longleftrightarrow> R = {0..<N}"
  by (metis card_atLeastLessThan card_subset_eq diff_zero finite_atLeastLessThan)

lemma holds_accept:
  assumes h: "holds h pl R a" and c: "c < StreamInfo.chunksTotal h" "c \<notin> R"
    and cons: "(StreamInfo.chunksTotal h - 1) * 32768 < StreamInfo.frameSize h"
  shows "accepts a c"
    and "holds h pl (insert c R)
           (a \<lparr> buffer := written (buffer a) (c * chunkPayloadSize a) (pl c),
                receivedChunks := insert c (receivedChunks a), lastUpdate := t \<rparr>)"
proof -
  have "c \<le> StreamInfo.chunksTotal h - 1" using c(1) by arith
  then have "c * 32768 \<le> (StreamInfo.chunksTotal h - 1) * 32768" by simp
  with cons have off: "c * 32768 < StreamInfo.frameSize h" by arith
  with h c show "accepts a c" by (simp add: accepts_def holds_def)
  from h have len: "length (buffer a) = StreamInfo.frameSize h" by (simp add: holds_def)
  have lw: "length (written (buffer a) (c * 32768) (pl c)) = StreamInfo.frameSize h"
    using off len by (simp add: length_written)
  have "(\<forall>c<StreamInfo.chunksTotal h. length (pl c) \<le> 32768) \<longrightarrow>
        written (buffer a) (c * 32768) (pl c) = assembled (StreamInfo.frameSize h) pl (insert c R)"
  proof
    assume b: "\<forall>c<StreamInfo.chunksTotal h. length (pl c) \<le> 32768"
    with h have "buffer a = assembled (StreamInfo.frameSize h) pl R" by (simp add: holds_def)
    moreover from b c(1) have "length (pl c) \<le> 32768" by simp
    ultimately show "written (buffer a) (c * 32768) (pl c) =
        assembled (StreamInfo.frameSize h) pl (insert c R)"
      using written_assembled [OF c(2) off] by simp
  qed
  with h lw show "holds h pl (insert c R)
           (a \<lparr> buffer := written (buffer a) (c * chunkPayloadSize a) (pl c),
                receivedChunks := insert c (receivedChunks a), lastUpdate := t \<rparr>)"
    by (simp add: holds_def)
qed

subsection \<open>A stream of pushes\<close>

lemma valid_ids_Cons:
  "valid_ids N ((t1, t2, c, p) # es) = (if c < N then c # valid_ids N es else valid_ids N es)"
  by (simp add: valid_ids_def chunk_ids_def)

lemma valid_ids_less: "c \<in> set (valid_ids N evs) \<Longrightarrow> c < N"
  by (simp add: valid_ids_def)

lemma last_valid:
  assumes "es \<noteq> []" "last (chunk_ids es) < N"
  shows "last (chunk_ids es) \<in> set (valid_ids N es)"
proof -
  from assms(1) have "chunk_ids es \<noteq> []" by (simp add: chunk_ids_def)
  then have "last (chunk_ids es) \<in> set (chunk_ids es)" by (rule last_in_set)
  with assms(2) show ?thesis by (simp add: valid_ids_def)
qed

lemma pushes_Cons_None:
  assumes "push r t1 t2 h p = Inr (None, r1)" "pushes r1 es = Inr (ress, r2)"
  shows "pushes r ((t1, t2, h, p) # es) = Inr (None # ress, r2)"
  using assms by simp

lemma arrivals_Cons:
  "arrivals h ((t1, t2, c, p) # es) =
     (t1, t2, h \<lparr> StreamInfo.chunkId := c, payloadLen := length p \<rparr>, p) # arrivals h es"
  by (simp add: arrivals_def)

lemma run_from:
  assumes absent: "map_of (frames r) (StreamInfo.frameId h) = None"
    and cons: "(StreamInfo.chunksTotal h - 1) * 32768 < StreamInfo.frameSize h"
  shows "(\<forall>e\<in>set evs. case e of (t1, t2, c, p) \<Rightarrow> c < StreamInfo.chunksTotal h \<longrightarrow> p = pl c) \<Longrightarrow>
     holds h pl R a \<Longrightarrow> R \<subseteq> {0..<StreamInfo.chunksTotal h} \<Longrightarrow>
     distinct (valid_ids (StreamInfo.chunksTotal h) evs) \<Longrightarrow>
     set (valid_ids (StreamInfo.chunksTotal h) evs) \<inter> R = {} \<Longrightarrow>
     (R \<union> set (valid_ids (StreamInfo.chunksTotal h) evs) \<noteq> {0..<StreamInfo.chunksTotal h} \<longrightarrow>
        (\<exists>a'. pushes (with_frame r (StreamInfo.frameId h) a) (arrivals h evs) =
                 Inr (replicate (length evs) None, with_frame r (StreamInfo.frameId h) a')
             \<and> holds h pl (R \<union> set (valid_ids (StreamInfo.chunksTotal h) evs)) a'))
     \<and> (R \<union> set (valid_ids (StreamInfo.chunksTotal h) evs) = {0..<StreamInfo.chunksTotal h}
          \<and> evs \<noteq> [] \<and> last (chunk_ids evs) < StreamInfo.chunksTotal h \<longrightarrow>
        (\<exists>f. pushes (with_frame r (StreamInfo.frameId h) a) (arrivals h evs) =
                 Inr (replicate (length evs - 1) None @ [Some f], r)
             \<and> holds h pl {0..<StreamInfo.chunksTotal h} f))"
proof (induction evs arbitrary: R a)
  case Nil
  have "pushes (with_frame r (StreamInfo.frameId h) a) (arrivals h []) =
          Inr (replicate (length ([] :: (int \<times> int \<times> nat \<times> Uint8Array) list)) None,
               with_frame r (StreamInfo.frameId h) a)"
    by (simp add: arrivals_def)
  moreover have "R \<union> set (valid_ids (StreamInfo.chunksTotal h) []) = R"
    by (simp add: valid_ids_def chunk_ids_def)
  ultimately show ?case using Nil.prems(2) by auto
next
  case (Cons e es)
  let ?N = "StreamInfo.chunksTotal h"
  let ?fid = "StreamInfo.frameId h"
  obtain t1 t2 c p where e: "e = (t1, t2, c, p)" by (cases e) auto
  let ?h = "h \<lparr> StreamInfo.chunkId := c, payloadLen := length p \<rparr>"
  have hf: "StreamInfo.frameId ?h = ?fid" "StreamInfo.chunkId ?h = c" by simp_all
  have pay: "\<forall>e\<in>set es. case e of (t1, t2, c, p) \<Rightarrow> c < ?N \<longrightarrow> p = pl c"
    using Cons.prems(1) by simp
  have arr: "arrivals h (e # es) = (t1, t2, ?h, p) # arrivals h es"
    by (simp add: e arrivals_Cons)
  have tot: "totalChunks a = ?N" "receivedChunks a = R" "chunkPayloadSize a = 32768"
    using Cons.prems(2) by (simp_all add: holds_def)
  show ?case
  proof (cases "c < ?N")
    case False
    then have v: "valid_ids ?N (e # es) = valid_ids ?N es" by (simp add: e valid_ids_Cons)
    from False tot have "\<not> accepts a c" by (simp add: accepts_def)
    then have step: "push (with_frame r ?fid a) t1 t2 ?h p = Inr (None, with_frame r ?fid a)"
      using step_rejected [OF absent hf(1), of a t1 t2 p] by (simp add: hf)
    note IH = Cons.IH [OF pay Cons.prems(2,3), unfolded v [symmetric],
        OF Cons.prems(4) Cons.prems(5)]
    show ?thesis
    proof (intro conjI impI)
      assume "R \<union> set (valid_ids ?N (e # es)) \<noteq> {0..<?N}"
      with IH obtain a' where
        a': "pushes (with_frame r ?fid a) (arrivals h es) =
               Inr (replicate (length es) None, with_frame r ?fid a')"
          "holds h pl (R \<union> set (valid_ids ?N (e # es))) a'"
        by (auto simp add: v)
      from pushes_Cons_None [OF step a'(1)] a'(2)
      show "\<exists>a'. pushes (with_frame r ?fid a) (arrivals h (e # es)) =
                 Inr (replicate (length (e # es)) None, with_frame r ?fid a')
             \<and> holds h pl (R \<union> set (valid_ids ?N (e # es))) a'"
        by (auto simp add: arr)
    next
      assume as: "R \<union> set (valid_ids ?N (e # es)) = {0..<?N}
          \<and> e # es \<noteq> [] \<and> last (chunk_ids (e # es)) < ?N"
      have ne: "es \<noteq> []"
      proof
        assume "es = []"
        with as e have "c < ?N" by (simp add: chunk_ids_def)
        with False show False by simp
      qed
      with as have "last (chunk_ids es) < ?N" by (simp add: chunk_ids_def)
      with IH as ne obtain f where
        f: "pushes (with_frame r ?fid a) (arrivals h es) =
               Inr (replicate (length es - 1) None @ [Some f], r)"
          "holds h pl {0..<?N} f"
        by (auto simp add: v)
      from ne have "None # replicate (length es - 1) None = replicate (length es) (None :: FrameAssembler option)"
        by (cases es) simp_all
      with pushes_Cons_None [OF step f(1)] f(2)
      show "\<exists>f. pushes (with_frame r ?fid a) (arrivals h (e # es)) =
                 Inr (replicate (length (e # es) - 1) None @ [Some f], r)
             \<and> holds h pl {0..<?N} f"
        by (auto simp add: arr)
    qed
  next
    case True
    then have v: "valid_ids ?N (e # es) = c # valid_ids ?N es" by (simp add: e valid_ids_Cons)
    from True Cons.prems(1) e have p: "p = pl c" by simp
    from Cons.prems(4,5) v have cR: "c \<notin> R" and ces: "c \<notin> set (valid_ids ?N es)"
      and des: "distinct (valid_ids ?N es)" by auto
    let ?a = "a \<lparr> buffer := written (buffer a) (c * chunkPayloadSize a) (pl c),
                  receivedChunks := insert c (receivedChunks a), lastUpdate := t2 \<rparr>"
    note ha = holds_accept(1) [OF Cons.prems(2) True cR cons]
      holds_accept(2) [OF Cons.prems(2) True cR cons, of t2]
    have iR: "insert c R \<subseteq> {0..<?N}" using True Cons.prems(3) by simp
    have step: "push (with_frame r ?fid a) t1 t2 ?h p =
        (if insert c R = {0..<?N} then Inr (Some ?a, r) else Inr (None, with_frame r ?fid ?a))"
      using step_accepted [OF absent hf(1), of a t1 t2 p] ha(1) card_full [OF iR]
      by (simp add: hf p tot Let_def)
    have un: "R \<union> set (valid_ids ?N (e # es)) = insert c R \<union> set (valid_ids ?N es)"
      by (simp add: v)
    have sub: "R \<union> set (valid_ids ?N (e # es)) \<subseteq> {0..<?N}"
      using Cons.prems(3) by (auto dest: valid_ids_less)
    show ?thesis
    proof (cases "insert c R = {0..<?N}")
      case full: True
      have all: "R \<union> set (valid_ids ?N (e # es)) = {0..<?N}"
        using sub full un by blast
      have es: "last (chunk_ids (e # es)) < ?N \<Longrightarrow> es = []"
      proof (rule ccontr)
        assume l: "last (chunk_ids (e # es)) < ?N" and ne: "es \<noteq> []"
        then have "last (chunk_ids es) < ?N" by (simp add: chunk_ids_def)
        from last_valid [OF ne this] have m: "last (chunk_ids es) \<in> set (valid_ids ?N es)" .
        then have "last (chunk_ids es) \<in> {0..<?N}" by (auto dest: valid_ids_less)
        with full have "last (chunk_ids es) = c \<or> last (chunk_ids es) \<in> R" by blast
        with m ces Cons.prems(5) v show False by auto
      qed
      show ?thesis
      proof (intro conjI impI)
        assume "R \<union> set (valid_ids ?N (e # es)) \<noteq> {0..<?N}"
        with all show "\<exists>a'. pushes (with_frame r ?fid a) (arrivals h (e # es)) =
                 Inr (replicate (length (e # es)) None, with_frame r ?fid a')
             \<and> holds h pl (R \<union> set (valid_ids ?N (e # es))) a'"
          by simp
      next
        assume "R \<union> set (valid_ids ?N (e # es)) = {0..<?N}
          \<and> e # es \<noteq> [] \<and> last (chunk_ids (e # es)) < ?N"
        then have "es = []" using es by simp
        moreover have "holds h pl {0..<?N} ?a" using ha(2) full tot by simp
        ultimately show "\<exists>f. pushes (with_frame r ?fid a) (arrivals h (e # es)) =
                 Inr (replicate (length (e # es) - 1) None @ [Some f], r)
             \<and> holds h pl {0..<?N} f"
          using step full by (auto simp add: e arrivals_def)
      qed
    next
      case part: False
      then have step': "push (with_frame r ?fid a) t1 t2 ?h p = Inr (None, with_frame r ?fid ?a)"
        using step by simp
      have ha2: "holds h pl (insert c R) ?a" using ha(2) tot by simp
      have dj: "set (valid_ids ?N es) \<inter> insert c R = {}"
        using Cons.prems(5) ces v by auto
      note IH = Cons.IH [OF pay ha2 iR des dj]
      show ?thesis
      proof (intro conjI impI)
        assume "R \<union> set (valid_ids ?N (e # es)) \<noteq> {0..<?N}"
        with IH un obtain a' where
          a': "pushes (with_frame r ?fid ?a) (arrivals h es) =
                 Inr (replicate (length es) None, with_frame r ?fid a')"
            "holds h pl (R \<union> set (valid_ids ?N (e # es))) a'"
          by auto
        from pushes_Cons_None [OF step' a'(1)] a'(2)
        show "\<exists>a'. pushes (with_frame r ?fid a) (arrivals h (e # es)) =
                 Inr (replicate (length (e # es)) None, with_frame r ?fid a')
             \<and> holds h pl (R \<union> set (valid_ids ?N (e # es))) a'"
          by (auto simp add: arr)
      next
        assume as: "R \<union> set (valid_ids ?N (e # es)) = {0..<?N}
          \<and> e # es \<noteq> [] \<and> last (chunk_ids (e # es)) < ?N"
        have ne: "es \<noteq> []"
        proof
          assume "es = []"
          then have "valid_ids ?N es = []" by (simp add: valid_ids_def chunk_ids_def)
          with as un have "insert c R = {0..<?N}" by simp
          with part show False by simp
        qed
        with as have "last (chunk_ids es) < ?N" by (simp add: chunk_ids_def)
        with IH as ne un obtain f where
          f: "pushes (with_frame r ?fid ?a) (arrivals h es) =
               Inr (replicate (length es - 1) None @ [Some f], r)"
            "holds h pl {0..<?N} f"
          by auto
        from ne have "None # replicate (length es - 1) None = replicate (length es) (None :: FrameAssembler option)"
          by (cases es) simp_all
        with pushes_Cons_None [OF step' f(1)] f(2)
        show "\<exists>f. pushes (with_frame r ?fid a) (arrivals h (e # es)) =
                 Inr (replicate (length (e # es) - 1) None @ [Some f], r)
             \<and> holds h pl {0..<?N} f"
          by (auto simp add: arr)
      qed
    qed
  qed
qed

lemma pushes_absent:
  assumes "map_of (frames r) (StreamInfo.frameId h) = None"
  shows "pushes r (arrivals h ((t1, t2, c, p) # es)) =
         pushes (with_frame r (StreamInfo.frameId h)
                   (FrameAssembler_new (h \<lparr> StreamInfo.chunkId := c, payloadLen := length p \<rparr>) t1))
                (arrivals h ((t1, t2, c, p) # es))"
proof -
  let ?h = "h \<lparr> StreamInfo.chunkId := c, payloadLen := length p \<rparr>"
  have "map_of (frames r) (StreamInfo.frameId ?h) = None" using assms by simp
  from push_absent_with_frame [OF this, of t1 t2 p] show ?thesis
    by (simp add: arrivals_Cons)
qed

lemma run_partial:
  assumes absent: "map_of (frames r) (StreamInfo.frameId h) = None"
    and cons: "(StreamInfo.chunksTotal h - 1) * 32768 < StreamInfo.frameSize h"
    and pay: "\<forall>e\<in>set evs. case e of (t1, t2, c, p) \<Rightarrow> c < StreamInfo.chunksTotal h \<longrightarrow> p = pl c"
    and dist: "distinct (valid_ids (StreamInfo.chunksTotal h) evs)"
    and ne: "evs \<noteq> []"
    and part: "set (valid_ids (StreamInfo.chunksTotal h) evs) \<noteq> {0..<StreamInfo.chunksTotal h}"
  shows "\<exists>a. pushes r (arrivals h evs) =
               Inr (replicate (length evs) None, with_frame r (StreamInfo.frameId h) a)
           \<and> holds h pl (set (valid_ids (StreamInfo.chunksTotal h) evs)) a"
proof -
  from ne obtain t1 t2 c p es where evs: "evs = (t1, t2, c, p) # es"
    by (cases evs) auto
  let ?a = "FrameAssembler_new (h \<lparr> StreamInfo.chunkId := c, payloadLen := length p \<rparr>) t1"
  have "holds h pl {} ?a" by (rule holds_new)
  from run_from [OF absent cons pay this _ dist, THEN conjunct1] part
  obtain a' where "pushes (with_frame r (StreamInfo.frameId h) ?a) (arrivals h evs) =
       Inr (replicate (length evs) None, with_frame r (StreamInfo.frameId h) a')"
     "holds h pl (set (valid_ids (StreamInfo.chunksTotal h) evs)) a'"
    by auto
  then show ?thesis
    using pushes_absent [OF absent, of t1 t2 c p es] by (auto simp add: evs)
qed

lemma run_complete:
  assumes absent: "map_of (frames r) (StreamInfo.frameId h) = None"
    and cons: "(StreamInfo.chunksTotal h - 1) * 32768 < StreamInfo.frameSize h"
    and pay: "\<forall>e\<in>set evs. case e of (t1, t2, c, p) \<Rightarrow> c < StreamInfo.chunksTotal h \<longrightarrow> p = pl c"
    and dist: "distinct (valid_ids (StreamInfo.chunksTotal h) evs)"
    and ne: "evs \<noteq> []"
    and full: "set (valid_ids (StreamInfo.chunksTotal h) evs) = {0..<StreamInfo.chunksTotal h}"
    and lst: "last (chunk_ids evs) < StreamInfo.chunksTotal h"
  shows "\<exists>f. pushes r (arrivals h evs) = Inr (replicate (length evs - 1) None @ [Some f], r)
           \<and> holds h pl {0..<StreamInfo.chunksTotal h} f"
proof -
  from ne obtain t1 t2 c p es where evs: "evs = (t1, t2, c, p) # es"
    by (cases evs) auto
  let ?a = "FrameAssembler_new (h \<lparr> StreamInfo.chunkId := c, payloadLen := length p \<rparr>) t1"
  have "holds h pl {} ?a" by (rule holds_new)
  from run_from [OF absent cons pay this _ dist, THEN conjunct2] full ne lst
  obtain f where "pushes (with_frame r (StreamInfo.frameId h) ?a) (arrivals h evs) =
       Inr (replicate (length evs - 1) None @ [Some f], r)"
     "holds h pl {0..<StreamInfo.chunksTotal h} f"
    by auto
  then show ?thesis
    using pushes_absent [OF absent, of t1 t2 c p es] by (auto simp add: evs)
qed

lemma holds_jpeg:
  assumes "holds h pl R f"
  shows "receivedChunks f = R" "length (getJpegData f) = StreamInfo.frameSize h"
    "width f = StreamInfo.width h" "height f = StreamInfo.height h"
    "(\<forall>c<StreamInfo.chunksTotal h. length (pl c) \<le> 32768) \<Longrightarrow>
       getJpegData f = assembled (StreamInfo.frameSize h) pl R"
  using assms by (simp_all add: holds_def getJpegData_def slice0_def)

lemma chunk_ids_take: "chunk_ids (take k evs) = take k (chunk_ids evs)"
  by (simp add: chunk_ids_def take_map)

lemma length_chunk_ids [simp]: "length (chunk_ids evs) = length evs"
  by (simp add: chunk_ids_def)

lemma valid_ids_all: "set (chunk_ids evs) \<subseteq> {0..<N} \<Longrightarrow> valid_ids N evs = chunk_ids evs"
  by (auto simp add: valid_ids_def filter_id_conv)

subsection \<open>Sample runs\<close>

lemma over_written:
  "written (written (replicate 32770 0) 0 (replicate 32769 1)) 32768 [2] = replicate 32768 1 @ [2, 0]"
  "written (written (replicate 32770 0) 32768 [2]) 0 (replicate 32769 1) = replicate 32769 1 @ [0]"
  by (simp_all add: written_def Let_def)

lemma over_lengths:
  "length (written (replicate 32770 0) 0 (replicate 32769 1)) = 32770"
  "length (written (replicate 32770 0) 32768 [2]) = 32770"
  "written (replicate 32770 0) 32768 [2] \<noteq> []"
  by (simp_all add: written_def Let_def)

lemma small_stalls:
  "pushes (Reassembler_new 8) (arrivals (small_info 1 0) [(100, 100, 0, [5]), (200, 200, 1, [6])]) =
     Inr ([None, None], \<lparr> frames = [(1, small_asm 1 5 100)], maxFrames = 8 \<rparr>)"
  by (simp add: arrivals_def push_def addChunk_eq accepts_def written_def Reassembler_new_def
      small_info_def small_asm_def FrameAssembler_new_def Uint8Array_new_def Let_def
      numeral_3_eq_3)

lemma reuse_stalls:
  "pushes \<lparr> frames = [(1, small_asm 1 5 100)], maxFrames = 8 \<rparr>
      (arrivals (one_info \<lparr> StreamInfo.frameId := 1 \<rparr>) [(300, 300, 0, [7])]) =
     Inr ([None], \<lparr> frames = [(1, small_asm 1 5 100)], maxFrames = 8 \<rparr>)"
  by (simp add: arrivals_def push_def addChunk_eq accepts_def one_info_def small_asm_def
      Let_def)

lemma over_01:
  "pushes (Reassembler_new 8) (arrivals over_info [(1, 1, 0, replicate 32769 1), (2, 2, 1, [2])]) =
     Inr ([None, Some (over_asm (replicate 32768 1 @ [2, 0]))], Reassembler_new 8)"
  by (simp add: arrivals_def push_def addChunk_eq accepts_def Reassembler_new_def
      over_info_def over_asm_def FrameAssembler_new_def Uint8Array_new_def Let_def
      over_written over_lengths insert_commute)

lemma over_10:
  "pushes (Reassembler_new 8) (arrivals over_info [(1, 1, 1, [2]), (2, 2, 0, replicate 32769 1)]) =
     Inr ([None, Some (over_asm (replicate 32769 1 @ [0]))], Reassembler_new 8)"
  by (simp add: arrivals_def push_def addChunk_eq accepts_def Reassembler_new_def
      over_info_def over_asm_def FrameAssembler_new_def Uint8Array_new_def Let_def
      over_written over_lengths insert_commute)

lemma over_differ:
  "getJpegData (over_asm (replicate 32768 1 @ [2, 0])) \<noteq> getJpegData (over_asm (replicate 32769 1 @ [0]))"
proof
  assume "getJpegData (over_asm (replicate 32768 1 @ [2, 0])) = getJpegData (over_asm (replicate 32769 1 @ [0]))"
  then have "(replicate 32768 1 @ [2, 0 :: byte]) = (replicate 32769 1 @ [0])"
    by (simp add: getJpegData_def slice0_def over_asm_def)
  then have "(replicate 32768 1 @ [2, 0 :: byte]) ! 32768 = (replicate 32769 1 @ [0]) ! 32768"
    by (rule arg_cong)
  then show False by (simp add: nth_append)
qed

lemma scenario_facts:
  "map_of (frames (Reassembler_new 8)) (StreamInfo.frameId scenario_info) = None"
  "0 < StreamInfo.chunksTotal scenario_info"
  "(StreamInfo.chunksTotal scenario_info - 1) * 32768 < StreamInfo.frameSize scenario_info"
  "\<forall>c<StreamInfo.chunksTotal scenario_info. length (scenario_payload c) \<le> 32768"
  by (simp_all add: Reassembler_new_def scenario_info_def scenario_payload_def)

lemma three: "{0..<StreamInfo.chunksTotal scenario_info} = {0, 1, 2}"
  by (auto simp add: scenario_info_def)

subsection \<open>Completion\<close>

text \<open>
  C1 as stated fails.  A header declaring two chunks and a frame of three bytes: both
  chunk ids arrive and no frame is emitted (chunk 1 lies behind the buffer and is
  dropped).  A header declaring one chunk, while the table still holds an unfinished
  assembler under the same frame id: its only chunk arrives and no frame is emitted.  A
  header declaring two chunks and 32770 bytes, chunk 0 carrying 32769 bytes: the frame
  emitted for the order 0, 1 differs from the one for 1, 0.
\<close>

theorem frame_order_counterexample:
  "pushes (Reassembler_new 8)
      (arrivals (small_info 1 0) [(100, 100, 0, [5]), (200, 200, 1, [6])]) =
     Inr ([None, None], \<lparr> frames = [(1, small_asm 1 5 100)], maxFrames = 8 \<rparr>)
   \<and> pushes \<lparr> frames = [(1, small_asm 1 5 100)], maxFrames = 8 \<rparr>
      (arrivals (one_info \<lparr> StreamInfo.frameId := 1 \<rparr>) [(300, 300, 0, [7])]) =
     Inr ([None], \<lparr> frames = [(1, small_asm 1 5 100)], maxFrames = 8 \<rparr>)
   \<and> pushes (Reassembler_new 8)
      (arrivals over_info [(1, 1, 0, replicate 32769 1), (2, 2, 1, [2])]) =
     Inr ([None, Some (over_asm (replicate 32768 1 @ [2, 0]))], Reassembler_new 8)
   \<and> pushes (Reassembler_new 8)
      (arrivals over_info [(1, 1, 1, [2]), (2, 2, 0, replicate 32769 1)]) =
     Inr ([None, Some (over_asm (replicate 32769 1 @ [0]))], Reassembler_new 8)
   \<and> getJpegData (over_asm (replicate 32768 1 @ [2, 0]))
       \<noteq> getJpegData (over_asm (replicate 32769 1 @ [0]))"
  using small_stalls reuse_stalls over_01 over_10 over_differ by simp

text \<open>
  C1, amended.  Let the header declare \<open>chunksTotal = N > 0\<close> and a \<open>frameSize\<close> above
  \<open>(N - 1) * 32768\<close>, let the table hold no assembler for its frame id, and let the
  \<open>N\<close> chunk ids below \<open>N\<close> arrive once each, in any order, chunk \<open>c\<close> with payload
  \<open>pl c\<close>.  Then the first \<open>N - 1\<close> pushes return \<open>null\<close> and the last returns the
  assembler, the table being afterwards what it was before the first push; after each
  proper prefix of the arrivals all results are \<open>null\<close> and the table holds the
  assembler with exactly the chunks delivered so far; the emitted buffer has
  \<open>frameSize\<close> bytes; and when no payload exceeds 32768 bytes it is the frame the
  payloads describe, the same for every arrival order.
\<close>

theorem frame_emitted_once_any_order:
  assumes absent: "map_of (frames r) (StreamInfo.frameId h) = None"
    and pos: "0 < StreamInfo.chunksTotal h"
    and cons: "(StreamInfo.chunksTotal h - 1) * 32768 < StreamInfo.frameSize h"
    and dist: "distinct (chunk_ids evs)"
    and full: "set (chunk_ids evs) = {0..<StreamInfo.chunksTotal h}"
    and pay: "\<forall>e\<in>set evs. case e of (t1, t2, c, p) \<Rightarrow> p = pl c"
  shows "\<exists>f. pushes r (arrivals h evs) =
               Inr (replicate (StreamInfo.chunksTotal h - 1) None @ [Some f], r)
     \<and> receivedChunks f = {0..<StreamInfo.chunksTotal h}
     \<and> length (getJpegData f) = StreamInfo.frameSize h
     \<and> ((\<forall>c<StreamInfo.chunksTotal h. length (pl c) \<le> 32768) \<longrightarrow>
          getJpegData f = assembled (StreamInfo.frameSize h) pl {0..<StreamInfo.chunksTotal h})
     \<and> (\<forall>k. 0 < k \<and> k < StreamInfo.chunksTotal h \<longrightarrow>
          (\<exists>a r'. pushes r (arrivals h (take k evs)) = Inr (replicate k None, r')
                 \<and> map_of (frames r') (StreamInfo.frameId h) = Some a
                 \<and> receivedChunks a = set (take k (chunk_ids evs))))"
proof -
  let ?N = "StreamInfo.chunksTotal h"
  have len: "length evs = ?N"
    using distinct_card [OF dist] full by simp
  with pos have ne: "evs \<noteq> []" by auto
  have v: "valid_ids ?N evs = chunk_ids evs"
    using full by (intro valid_ids_all) simp
  have pay': "\<forall>e\<in>set evs. case e of (t1, t2, c, p) \<Rightarrow> c < ?N \<longrightarrow> p = pl c"
    using pay by auto
  from ne have "chunk_ids evs \<noteq> []" by (simp add: chunk_ids_def)
  then have "last (chunk_ids evs) \<in> set (chunk_ids evs)" by (rule last_in_set)
  with full have lst: "last (chunk_ids evs) < ?N" by simp
  from run_complete [OF absent cons pay' _ ne _ lst, of] dist full v
  obtain f where f: "pushes r (arrivals h evs) = Inr (replicate (length evs - 1) None @ [Some f], r)"
    "holds h pl {0..<?N} f"
    by auto
  have pre: "\<exists>a r'. pushes r (arrivals h (take k evs)) = Inr (replicate k None, r')
                 \<and> map_of (frames r') (StreamInfo.frameId h) = Some a
                 \<and> receivedChunks a = set (take k (chunk_ids evs))"
    if k: "0 < k \<and> k < ?N" for k
  proof -
    let ?es = "take k evs"
    have ids: "chunk_ids ?es = take k (chunk_ids evs)" by (rule chunk_ids_take)
    have sub: "set (chunk_ids ?es) \<subseteq> {0..<?N}"
      using full set_take_subset [of k "chunk_ids evs"] by (simp add: ids)
    then have v': "valid_ids ?N ?es = chunk_ids ?es" by (rule valid_ids_all)
    have d': "distinct (chunk_ids ?es)" using dist by (simp add: ids)
    have l': "length ?es = k" using k len by simp
    then have "card (set (chunk_ids ?es)) = k" using distinct_card [OF d'] by simp
    with k have nf: "set (chunk_ids ?es) \<noteq> {0..<?N}" by auto
    have ne': "?es \<noteq> []" using l' k by auto
    have pay'': "\<forall>e\<in>set ?es. case e of (t1, t2, c, p) \<Rightarrow> c < ?N \<longrightarrow> p = pl c"
      using pay' set_take_subset [of k evs] by blast
    from run_partial [OF absent cons pay'' _ ne'] d' nf v'
    obtain a where "pushes r (arrivals h ?es) =
               Inr (replicate (length ?es) None, with_frame r (StreamInfo.frameId h) a)"
      "holds h pl (set (chunk_ids ?es)) a"
      by auto
    with map_of_with_frame [OF absent, of a] l' show ?thesis
      by (auto simp add: holds_def ids)
  qed
  from f len holds_jpeg [OF f(2)] pre show ?thesis by auto
qed

text \<open>C1, amended, at the frame of 70000 bytes in three chunks, arriving in the orders
  0, 1, 2 and 2, 0, 1.\<close>

theorem frame_emitted_once_any_order_witness:
  "\<exists>f g. pushes (Reassembler_new 8)
            (arrivals scenario_info
               [(1, 1, 0, scenario_payload 0), (2, 2, 1, scenario_payload 1),
                (3, 3, 2, scenario_payload 2)]) =
          Inr ([None, None, Some f], Reassembler_new 8)
     \<and> pushes (Reassembler_new 8)
            (arrivals scenario_info
               [(1, 1, 2, scenario_payload 2), (2, 2, 0, scenario_payload 0),
                (3, 3, 1, scenario_payload 1)]) =
          Inr ([None, None, Some g], Reassembler_new 8)
     \<and> length (getJpegData f) = 70000
     \<and> getJpegData f = getJpegData g"
proof -
  let ?e1 = "[(1::int, 1::int, 0::nat, scenario_payload 0), (2, 2, 1, scenario_payload 1),
                (3, 3, 2, scenario_payload 2)]"
  let ?e2 = "[(1::int, 1::int, 2::nat, scenario_payload 2), (2, 2, 0, scenario_payload 0),
                (3, 3, 1, scenario_payload 1)]"
  have d1: "distinct (chunk_ids ?e1)" "set (chunk_ids ?e1) = {0..<StreamInfo.chunksTotal scenario_info}"
    "\<forall>e\<in>set ?e1. case e of (t1, t2, c, p) \<Rightarrow> p = scenario_payload c"
    by (auto simp add: chunk_ids_def three)
  have d2: "distinct (chunk_ids ?e2)" "set (chunk_ids ?e2) = {0..<StreamInfo.chunksTotal scenario_info}"
    "\<forall>e\<in>set ?e2. case e of (t1, t2, c, p) \<Rightarrow> p = scenario_payload c"
    by (auto simp add: chunk_ids_def three)
  have n: "replicate (StreamInfo.chunksTotal scenario_info - 1) (None :: FrameAssembler option) = [None, None]"
    by (simp add: scenario_info_def numeral_2_eq_2)
  from frame_emitted_once_any_order [OF scenario_facts(1,2,3) d1] scenario_facts(4)
  obtain f where f: "pushes (Reassembler_new 8) (arrivals scenario_info ?e1) =
               Inr ([None, None, Some f], Reassembler_new 8)"
     "length (getJpegData f) = StreamInfo.frameSize scenario_info"
     "getJpegData f = assembled (StreamInfo.frameSize scenario_info) scenario_payload
         {0..<StreamInfo.chunksTotal scenario_info}"
    unfolding n by auto
  from frame_emitted_once_any_order [OF scenario_facts(1,2,3) d2] scenario_facts(4)
  obtain g where g: "pushes (Reassembler_new 8) (arrivals scenario_info ?e2) =
               Inr ([None, None, Some g], Reassembler_new 8)"
     "getJpegData g = assembled (StreamInfo.frameSize scenario_info) scenario_payload
         {0..<StreamInfo.chunksTotal scenario_info}"
    unfolding n by auto
  have "StreamInfo.frameSize scenario_info = 70000" by (simp add: scenario_info_def)
  with f g show ?thesis by auto
qed

subsection \<open>Rejected chunks\<close>

text \<open>
  C6 as stated fails.  A header declaring two chunks and a frame of three bytes: chunk 1
  is below \<open>totalChunks\<close> but its offset 32768 is behind the buffer, so \<open>addChunk\<close>
  drops it, unchanged; and when chunks 0 and 1 have both arrived, even twice, every push
  has returned \<open>null\<close> and the frame has not completed.
\<close>

theorem offset_rejected_chunk_stalls_frame:
  "StreamInfo.chunksTotal (small_info 1 0) = 2
   \<and> 1 < totalChunks (small_asm 1 5 100)
   \<and> length (buffer (small_asm 1 5 100)) \<le> 1 * chunkPayloadSize (small_asm 1 5 100)
   \<and> addChunk (small_asm 1 5 100) 1 [6] 200 = Inr (False, small_asm 1 5 100)
   \<and> pushes (Reassembler_new 8)
        (arrivals (small_info 1 0)
           [(100, 100, 0, [5]), (200, 200, 1, [6]), (300, 300, 1, [6]), (400, 400, 0, [5])]) =
       Inr ([None, None, None, None],
            \<lparr> frames = [(1, small_asm 1 5 100)], maxFrames = 8 \<rparr>)"
proof -
  have "addChunk (small_asm 1 5 100) 1 [6] 200 = Inr (False, small_asm 1 5 100)"
    by (simp add: addChunk_eq accepts_def small_asm_def)
  moreover have "pushes (Reassembler_new 8)
        (arrivals (small_info 1 0)
           [(100, 100, 0, [5]), (200, 200, 1, [6]), (300, 300, 1, [6]), (400, 400, 0, [5])]) =
       Inr ([None, None, None, None],
            \<lparr> frames = [(1, small_asm 1 5 100)], maxFrames = 8 \<rparr>)"
    by (simp add: arrivals_def push_def addChunk_eq accepts_def written_def
        Reassembler_new_def small_info_def small_asm_def FrameAssembler_new_def
        Uint8Array_new_def Let_def numeral_3_eq_3)
  ultimately show ?thesis by (simp add: small_info_def small_asm_def)
qed

text \<open>
  C6, amended.  A chunk whose id is not below \<open>totalChunks\<close>, or whose offset is not
  inside the buffer, makes \<open>addChunk\<close> return false with the assembler unchanged;
  pushed for a frame in the table it returns \<open>null\<close> and leaves the reassembler
  unchanged.  For a header with \<open>frameSize\<close> above \<open>(N - 1) * 32768\<close> and no assembler
  in the table for its frame id, such chunks do not count towards completion and do not
  prevent it: a stream in which the chunk ids below \<open>N\<close> arrive once each, mixed with
  any chunks of id \<open>N\<close> or more, and which ends with a chunk id below \<open>N\<close>, returns
  \<open>null\<close> for every push but the last, which returns the assembler with all \<open>N\<close>
  chunks, a buffer of \<open>frameSize\<close> bytes and (when no payload exceeds 32768 bytes) the
  frame the payloads describe.
\<close>

theorem rejected_chunk_no_effect:
  "((cid \<ge> totalChunks a \<or> cid * chunkPayloadSize a \<ge> length (buffer a)) \<longrightarrow>
       addChunk a cid p t = Inr (False, a))
   \<and> (map_of (frames r0) (StreamInfo.frameId h') = Some a
        \<and> (StreamInfo.chunkId h' \<ge> totalChunks a
            \<or> StreamInfo.chunkId h' * chunkPayloadSize a \<ge> length (buffer a)) \<longrightarrow>
       push r0 t1 t2 h' p = Inr (None, r0))
   \<and> (map_of (frames r) (StreamInfo.frameId h) = None
        \<and> (StreamInfo.chunksTotal h - 1) * 32768 < StreamInfo.frameSize h
        \<and> distinct (valid_ids (StreamInfo.chunksTotal h) evs)
        \<and> set (valid_ids (StreamInfo.chunksTotal h) evs) = {0..<StreamInfo.chunksTotal h}
        \<and> (\<forall>e\<in>set evs. case e of (t1, t2, c, p) \<Rightarrow> c < StreamInfo.chunksTotal h \<longrightarrow> p = pl c)
        \<and> evs \<noteq> [] \<and> last (chunk_ids evs) < StreamInfo.chunksTotal h \<longrightarrow>
       (\<exists>f. pushes r (arrivals h evs) = Inr (replicate (length evs - 1) None @ [Some f], r)
           \<and> receivedChunks f = {0..<StreamInfo.chunksTotal h}
           \<and> length (getJpegData f) = StreamInfo.frameSize h
           \<and> ((\<forall>c<StreamInfo.chunksTotal h. length (pl c) \<le> 32768) \<longrightarrow>
                getJpegData f =
                  assembled (StreamInfo.frameSize h) pl {0..<StreamInfo.chunksTotal h})))"
proof (intro conjI impI)
  assume "cid \<ge> totalChunks a \<or> cid * chunkPayloadSize a \<ge> length (buffer a)"
  then have "\<not> accepts a cid" by (auto simp add: accepts_def)
  then show "addChunk a cid p t = Inr (False, a)" by (simp add: addChunk_eq)
next
  assume a: "map_of (frames r0) (StreamInfo.frameId h') = Some a
        \<and> (StreamInfo.chunkId h' \<ge> totalChunks a
            \<or> StreamInfo.chunkId h' * chunkPayloadSize a \<ge> length (buffer a))"
  then have "\<not> accepts a (StreamInfo.chunkId h')" by (auto simp add: accepts_def)
  with a show "push r0 t1 t2 h' p = Inr (None, r0)" by (simp add: push_existing)
next
  assume a: "map_of (frames r) (StreamInfo.frameId h) = None
        \<and> (StreamInfo.chunksTotal h - 1) * 32768 < StreamInfo.frameSize h
        \<and> distinct (valid_ids (StreamInfo.chunksTotal h) evs)
        \<and> set (valid_ids (StreamInfo.chunksTotal h) evs) = {0..<StreamInfo.chunksTotal h}
        \<and> (\<forall>e\<in>set evs. case e of (t1, t2, c, p) \<Rightarrow> c < StreamInfo.chunksTotal h \<longrightarrow> p = pl c)
        \<and> evs \<noteq> [] \<and> last (chunk_ids evs) < StreamInfo.chunksTotal h"
  then have 1: "map_of (frames r) (StreamInfo.frameId h) = None"
    and 2: "(StreamInfo.chunksTotal h - 1) * 32768 < StreamInfo.frameSize h"
    and 3: "distinct (valid_ids (StreamInfo.chunksTotal h) evs)"
    and 4: "set (valid_ids (StreamInfo.chunksTotal h) evs) = {0..<StreamInfo.chunksTotal h}"
    and 5: "\<forall>e\<in>set evs. case e of (t1, t2, c, p) \<Rightarrow> c < StreamInfo.chunksTotal h \<longrightarrow> p = pl c"
    and 6: "evs \<noteq> []" and 7: "last (chunk_ids evs) < StreamInfo.chunksTotal h"
    by blast+
  from run_complete [OF 1 2 5 3 6 4 7]
  obtain f where f: "pushes r (arrivals h evs) = Inr (replicate (length evs - 1) None @ [Some f], r)"
    "holds h pl {0..<StreamInfo.chunksTotal h} f"
    by auto
  from f(1) holds_jpeg [OF f(2)]
  show "\<exists>f. pushes r (arrivals h evs) = Inr (replicate (length evs - 1) None @ [Some f], r)
           \<and> receivedChunks f = {0..<StreamInfo.chunksTotal h}
           \<and> length (getJpegData f) = StreamInfo.frameSize h
           \<and> ((\<forall>c<StreamInfo.chunksTotal h. length (pl c) \<le> 32768) \<longrightarrow>
                getJpegData f =
                  assembled (StreamInfo.frameSize h) pl {0..<StreamInfo.chunksTotal h})"
    by auto
qed

text \<open>C6, amended, at an assembler of two chunks and three bytes (chunk 5, and chunk 1 whose offset
  is behind the buffer), and at the frame of 70000 bytes with a chunk 5 among its three.\<close>

theorem rejected_chunk_no_effect_witness:
  "addChunk (small_asm 1 5 100) 5 [9] 200 = Inr (False, small_asm 1 5 100)
   \<and> addChunk (small_asm 1 5 100) 1 [9] 200 = Inr (False, small_asm 1 5 100)
   \<and> push \<lparr> frames = [(1, small_asm 1 5 100)], maxFrames = 8 \<rparr> 200 200 (small_info 1 5) [9] =
       Inr (None, \<lparr> frames = [(1, small_asm 1 5 100)], maxFrames = 8 \<rparr>)
   \<and> (\<exists>f. pushes (Reassembler_new 8)
            (arrivals scenario_info
               [(1, 1, 0, scenario_payload 0), (2, 2, 5, [9]), (3, 3, 1, scenario_payload 1),
                (4, 4, 2, scenario_payload 2)]) =
          Inr ([None, None, None, Some f], Reassembler_new 8)
        \<and> length (getJpegData f) = 70000
        \<and> getJpegData f = assembled 70000 scenario_payload {0, 1, 2})"
proof -
  let ?r = "\<lparr> frames = [(1, small_asm 1 5 100)], maxFrames = 8 \<rparr>"
  let ?es = "[(1::int, 1::int, 0::nat, scenario_payload 0), (2, 2, 5, [9]),
              (3, 3, 1, scenario_payload 1), (4, 4, 2, scenario_payload 2)]"
  note t1 = rejected_chunk_no_effect [where cid = 5 and a = "small_asm 1 5 100" and p = "[9]"
      and t = 200 and ?r0.0 = ?r and h' = "small_info 1 5" and ?t1.0 = 200 and ?t2.0 = 200
      and r = "Reassembler_new 8" and h = scenario_info and evs = ?es and pl = scenario_payload]
  note t2 = rejected_chunk_no_effect [where cid = 1 and a = "small_asm 1 5 100" and p = "[9]"
      and t = 200 and ?r0.0 = ?r and h' = "small_info 1 5" and ?t1.0 = 200 and ?t2.0 = 200
      and r = "Reassembler_new 8" and h = scenario_info and evs = ?es and pl = scenario_payload]
  have a: "5 \<ge> totalChunks (small_asm 1 5 100)"
    "1 * chunkPayloadSize (small_asm 1 5 100) \<ge> length (buffer (small_asm 1 5 100))"
    "map_of (frames ?r) (StreamInfo.frameId (small_info 1 5)) = Some (small_asm 1 5 100)"
    "StreamInfo.chunkId (small_info 1 5) \<ge> totalChunks (small_asm 1 5 100)"
    by (simp_all add: small_asm_def small_info_def)
  have v: "valid_ids (StreamInfo.chunksTotal scenario_info) ?es = [0, 1, 2]"
    by (simp add: valid_ids_def chunk_ids_def scenario_info_def)
  have b: "distinct (valid_ids (StreamInfo.chunksTotal scenario_info) ?es)"
    "set (valid_ids (StreamInfo.chunksTotal scenario_info) ?es) = {0..<StreamInfo.chunksTotal scenario_info}"
    "\<forall>e\<in>set ?es. case e of (t1, t2, c, p) \<Rightarrow>
        c < StreamInfo.chunksTotal scenario_info \<longrightarrow> p = scenario_payload c"
    "?es \<noteq> []" "last (chunk_ids ?es) < StreamInfo.chunksTotal scenario_info"
    unfolding v three by (simp_all add: chunk_ids_def scenario_info_def)
  from t1 a have 1: "addChunk (small_asm 1 5 100) 5 [9] 200 = Inr (False, small_asm 1 5 100)"
    by blast
  from t2 a have 2: "addChunk (small_asm 1 5 100) 1 [9] 200 = Inr (False, small_asm 1 5 100)"
    by blast
  from t1 a have 3: "push ?r 200 200 (small_info 1 5) [9] = Inr (None, ?r)"
    by blast
  from t1 scenario_facts b
  obtain f where "pushes (Reassembler_new 8) (arrivals scenario_info ?es) =
               Inr (replicate (length ?es - 1) None @ [Some f], Reassembler_new 8)"
     "length (getJpegData f) = StreamInfo.frameSize scenario_info"
     "getJpegData f = assembled (StreamInfo.frameSize scenario_info) scenario_payload
         {0..<StreamInfo.chunksTotal scenario_info}"
    by blast
  then have "pushes (Reassembler_new 8) (arrivals scenario_info ?es) =
               Inr ([None, None, None, Some f], Reassembler_new 8)
        \<and> length (getJpegData f) = 70000
        \<and> getJpegData f = assembled 70000 scenario_payload {0, 1, 2}"
    unfolding three by (simp add: scenario_info_def numeral_3_eq_3)
  with 1 2 3 show ?thesis by blast
qed

end
